theory Spec2Isabelle
  imports Main "HOL-Library.Char_ord" "HOL-Library.List_Lexorder" "HOL-Library.Multiset"
begin

section \<open>Go strings\<close>

text \<open>
  A Go string is a sequence of bytes, so it is a \<open>string\<close> here (a list of 8-bit
  characters). The comparison operators of Go on strings are the bytewise lexicographic
  order, which is the order of \<open>Char_ord\<close> lifted by \<open>List_Lexorder\<close>.
  A rune is a Unicode code point, a natural number.
\<close>

type_synonym rune = nat

definition HasPrefix :: "string \<Rightarrow> string \<Rightarrow> bool" where
  "HasPrefix s pre = (take (length pre) s = pre)"

definition HasSuffix :: "string \<Rightarrow> string \<Rightarrow> bool" where
  "HasSuffix s suf = (length suf \<le> length s \<and> drop (length s - length suf) s = suf)"

definition TrimPrefix :: "string \<Rightarrow> string \<Rightarrow> string" where
  "TrimPrefix s pre = (if HasPrefix s pre then drop (length pre) s else s)"

definition TrimSuffix :: "string \<Rightarrow> string \<Rightarrow> string" where
  "TrimSuffix s suf = (if HasSuffix s suf then take (length s - length suf) s else s)"

text \<open>\<open>strings.Trim(s, cutset)\<close> for a cutset of one ASCII character: the leading
  occurrences are cut first, then the trailing ones.\<close>

definition Trim :: "string \<Rightarrow> char \<Rightarrow> string" where
  "Trim s c = rev (dropWhile (\<lambda>x. x = c) (rev (dropWhile (\<lambda>x. x = c) s)))"

text \<open>\<open>strings.ReplaceAll(s, old, new)\<close> where \<open>old\<close> and \<open>new\<close> are one byte each.\<close>

definition ReplaceAll :: "string \<Rightarrow> char \<Rightarrow> char \<Rightarrow> string" where
  "ReplaceAll s old new = map (\<lambda>x. if x = old then new else x) s"

definition is_upper :: "char \<Rightarrow> bool" where
  "is_upper c = (CHR ''A'' \<le> c \<and> c \<le> CHR ''Z'')"

definition is_lower :: "char \<Rightarrow> bool" where
  "is_lower c = (CHR ''a'' \<le> c \<and> c \<le> CHR ''z'')"

definition is_digit :: "char \<Rightarrow> bool" where
  "is_digit c = (CHR ''0'' \<le> c \<and> c \<le> CHR ''9'')"

text \<open>
  \<open>strings.ToLower\<close> on the ASCII letters. The program applies it to the output of the
  character filter of \<open>slugify\<close>, which is pure ASCII, and to a path whose last three
  bytes are then compared with \<open>.md\<close>; bytes outside \<open>A-Z\<close> are left as they are.
\<close>

definition lower_byte :: "char \<Rightarrow> char" where
  "lower_byte c = (if is_upper c then char_of (of_char c + (32::nat)) else c)"

definition ToLower :: "string \<Rightarrow> string" where
  "ToLower s = map lower_byte s"

section \<open>Slug derivation\<close>

text \<open>
  The class \<open>[^a-zA-Z0-9\-/]\<close> of \<open>reSlugBad\<close>. Every byte of a multi-byte or
  invalid UTF-8 sequence lies outside the class, so deleting the matches of
  \<open>reSlugBad\<close> deletes exactly the bytes outside the class.
\<close>

definition slug_bad :: "char \<Rightarrow> bool" where
  "slug_bad c = (\<not> (is_lower c \<or> is_upper c \<or> is_digit c \<or> c = CHR ''-'' \<or> c = CHR ''/''))"

definition reSlugBad_delete :: "string \<Rightarrow> string" where
  "reSlugBad_delete s = filter (\<lambda>c. \<not> slug_bad c) s"

definition slugify :: "string \<Rightarrow> string" where
  "slugify s0 =
     (let s1 = Trim (ReplaceAll s0 (CHR 0x5C) (CHR ''/'')) (CHR ''/'');
          s2 = ReplaceAll s1 (CHR '' '') (CHR ''-'');
          s3 = ReplaceAll s2 (CHR ''_'') (CHR ''-'');
          s4 = reSlugBad_delete s3;
          s5 = Trim s4 (CHR ''-'');
          s6 = ReplaceAll s5 (CHR ''/'') (CHR ''-'')
      in if s6 = [] then ''post'' else ToLower s6)"

section \<open>UTF-8\<close>

text \<open>
  \<open>utf8.DecodeRuneInString\<close>: the first rune of a string and its width in bytes. A byte
  that starts no well-formed sequence decodes to \<open>RuneError\<close> with width 1. The masks and
  shifts of the source are written with \<open>mod\<close> and multiplication.
\<close>

definition RuneError :: rune where
  "RuneError = 0xFFFD"

fun DecodeRune :: "string \<Rightarrow> rune \<times> nat" where
  "DecodeRune [] = (RuneError, 0)"
| "DecodeRune (c0 # cs) =
     (let s0 = (of_char c0 :: nat) in
      if s0 < 0x80 then (s0, 1)
      else if s0 < 0xC2 \<or> 0xF4 < s0 then (RuneError, 1)
      else
        let sz = (if s0 < 0xE0 then 2 else if s0 < 0xF0 then 3 else (4::nat));
            lo = (if s0 = 0xE0 then 0xA0 else if s0 = 0xF0 then 0x90 else (0x80::nat));
            hi = (if s0 = 0xED then 0x9F else if s0 = 0xF4 then 0x8F else (0xBF::nat))
        in if Suc (length cs) < sz then (RuneError, 1)
           else
             let s1 = (of_char (cs ! 0) :: nat) in
             if s1 < lo \<or> hi < s1 then (RuneError, 1)
             else if sz \<le> 2 then ((s0 mod 32) * 64 + s1 mod 64, 2)
             else
               let s2 = (of_char (cs ! 1) :: nat) in
               if s2 < 0x80 \<or> 0xBF < s2 then (RuneError, 1)
               else if sz \<le> 3 then ((s0 mod 16) * 4096 + (s1 mod 64) * 64 + s2 mod 64, 3)
               else
                 let s3 = (of_char (cs ! 2) :: nat) in
                 if s3 < 0x80 \<or> 0xBF < s3 then (RuneError, 1)
                 else ((s0 mod 8) * 262144 + (s1 mod 64) * 4096 + (s2 mod 64) * 64
                         + s3 mod 64, 4))"

text \<open>
  The runes of a string in order, each with the bytes it was decoded from: what
  \<open>for _, r := range s\<close> and \<open>[]rune(s)\<close> see.
\<close>

function runes_w :: "string \<Rightarrow> (rune \<times> string) list" where
  "runes_w [] = []"
| "runes_w (c # cs) =
     (case DecodeRune (c # cs) of
        (r, w) \<Rightarrow> (r, take w (c # cs)) # runes_w (drop (w - 1) cs))"
  by pat_completeness auto
termination
  by (relation "measure length") auto

definition runes :: "string \<Rightarrow> rune list" where
  "runes s = map fst (runes_w s)"

text \<open>The runtime's \<open>encoderune\<close>, used by \<open>string(r)\<close> for a rune slice \<open>r\<close>.\<close>

definition EncodeRune :: "rune \<Rightarrow> string" where
  "EncodeRune r0 =
     (if r0 \<le> 0x7F then [char_of r0]
      else if r0 \<le> 0x7FF then [char_of (0xC0 + r0 div 64), char_of (0x80 + r0 mod 64)]
      else
        let r = (if 0x10FFFF < r0 \<or> (0xD800 \<le> r0 \<and> r0 \<le> 0xDFFF) then RuneError else r0)
        in if r \<le> 0xFFFF
           then [char_of (0xE0 + r div 4096), char_of (0x80 + (r div 64) mod 64),
                 char_of (0x80 + r mod 64)]
           else [char_of (0xF0 + r div 262144), char_of (0x80 + (r div 4096) mod 64),
                 char_of (0x80 + (r div 64) mod 64), char_of (0x80 + r mod 64)])"

definition string_of_runes :: "rune list \<Rightarrow> string" where
  "string_of_runes rs = concat (map EncodeRune rs)"

text \<open>\<open>unicode.IsSpace\<close>: the code points with the property White_Space.\<close>

definition IsSpace :: "rune \<Rightarrow> bool" where
  "IsSpace r =
     ((0x09 \<le> r \<and> r \<le> 0x0D) \<or> r = 0x20 \<or> r = 0x85 \<or> r = 0xA0 \<or> r = 0x1680
      \<or> (0x2000 \<le> r \<and> r \<le> 0x200A) \<or> r = 0x2028 \<or> r = 0x2029 \<or> r = 0x202F
      \<or> r = 0x205F \<or> r = 0x3000)"

text \<open>
  \<open>strings.TrimSpace\<close> cuts the leading and the trailing runes that are white space and
  returns the bytes between them. (The source decodes the trailing runes backwards; a
  trailing white-space rune is found by both directions at the same place.)
\<close>

definition TrimSpace :: "string \<Rightarrow> string" where
  "TrimSpace s =
     concat (map snd (rev (dropWhile (\<lambda>x. IsSpace (fst x))
       (rev (dropWhile (\<lambda>x. IsSpace (fst x)) (runes_w s))))))"

text \<open>\<open>strings.Fields\<close>: the maximal runs of runes that are not white space.\<close>

fun fields_from :: "(rune \<times> string) list \<Rightarrow> string \<Rightarrow> string list" where
  "fields_from [] cur = (if cur = [] then [] else [cur])"
| "fields_from (x # xs) cur =
     (if IsSpace (fst x) then (if cur = [] then fields_from xs [] else cur # fields_from xs [])
      else fields_from xs (cur @ snd x))"

definition Fields :: "string \<Rightarrow> string list" where
  "Fields s = fields_from (runes_w s) []"

fun Join :: "string list \<Rightarrow> string \<Rightarrow> string" where
  "Join [] sep = []"
| "Join [a] sep = a"
| "Join (a # b # bs) sep = a @ sep @ Join (b # bs) sep"

section \<open>The regular expressions of the post transformer\<close>

text \<open>
  Go's \<open>regexp\<close> has leftmost-first semantics: the match that begins leftmost, and among
  those the one a backtracking search finds first. \<open>\s\<close> is the class
  \<open>[\t\n\f\r ]\<close>; \<open>.\<close> is every character but the newline; with the flag \<open>m\<close>,
  \<open>^\<close> holds at the start of the text and after a newline, \<open>$\<close> at the end of the text
  and before a newline. Each expression is written as the search it stands for. All
  their literal characters are ASCII, so the search runs on bytes.
\<close>

definition re_space :: "char \<Rightarrow> bool" where
  "re_space c = (c = CHR 0x09 \<or> c = CHR 0x0A \<or> c = CHR 0x0C \<or> c = CHR 0x0D \<or> c = CHR 0x20)"

subsection \<open>\<open>reH1 = (?m)^\s*#\s+(.+?)\s*$\<close>\<close>

text \<open>\<open>\s*$\<close> at the front of \<open>s\<close>: white space up to a newline or to the end.\<close>

definition re_spaces_eol :: "string \<Rightarrow> bool" where
  "re_spaces_eol s =
     (case dropWhile (\<lambda>c. re_space c \<and> c \<noteq> CHR 0x0A) s of
        [] \<Rightarrow> True
      | c # _ \<Rightarrow> c = CHR 0x0A)"

text \<open>\<open>(.+?)\s*$\<close>: the shortest non-empty run without a newline that \<open>\s*$\<close> follows.\<close>

fun reH1_group :: "string \<Rightarrow> string option" where
  "reH1_group [] = None"
| "reH1_group (c # cs) =
     (if c = CHR 0x0A then None
      else if re_spaces_eol cs then Some [c]
      else map_option ((#) c) (reH1_group cs))"

text \<open>\<open>\s+\<close> is greedy: it first takes every white-space character and gives them back
  one at a time, down to one, until the rest of the expression matches.\<close>

fun reH1_spaces :: "nat \<Rightarrow> string \<Rightarrow> string option" where
  "reH1_spaces 0 s = None"
| "reH1_spaces (Suc j) s =
     (case reH1_group (drop (Suc j) s) of
        Some g \<Rightarrow> Some g
      | None \<Rightarrow> reH1_spaces j s)"

text \<open>The expression at a position where \<open>^\<close> holds. After \<open>\s*\<close> comes \<open>#\<close>, which is
  no white space, so \<open>\s*\<close> takes the whole run of white space.\<close>

definition reH1_here :: "string \<Rightarrow> string option" where
  "reH1_here s =
     (case dropWhile re_space s of
        [] \<Rightarrow> None
      | c # r \<Rightarrow> if c = CHR ''#'' then reH1_spaces (length (takeWhile re_space r)) r else None)"

text \<open>\<open>reH1.FindStringSubmatch\<close>: the group of the leftmost match; \<open>bol\<close> says whether
  \<open>^\<close> holds at the current position.\<close>

fun reH1_find :: "bool \<Rightarrow> string \<Rightarrow> string option" where
  "reH1_find bol [] = None"
| "reH1_find bol (c # cs) =
     (case (if bol then reH1_here (c # cs) else None) of
        Some g \<Rightarrow> Some g
      | None \<Rightarrow> reH1_find (c = CHR 0x0A) cs)"

definition extractTitle :: "string \<Rightarrow> string" where
  "extractTitle md = (case reH1_find True md of Some g \<Rightarrow> TrimSpace g | None \<Rightarrow> [])"

subsection \<open>\<open>reStripFences = (?s)```.*?```\<close>\<close>

definition fence :: string where
  "fence = [CHR 0x60, CHR 0x60, CHR 0x60]"

text \<open>The text after the first occurrence of the fence, if there is one.\<close>

fun after_fence :: "string \<Rightarrow> string option" where
  "after_fence [] = None"
| "after_fence (c # cs) =
     (if HasPrefix (c # cs) fence then Some (drop 2 cs) else after_fence cs)"

lemma after_fence_length: "after_fence s = Some r \<Longrightarrow> length r < length s"
  by (induction s) (auto split: if_splits)

text \<open>\<open>reStripFences.ReplaceAllString(s, "")\<close>: a match is an opening fence, the
  shortest text, and the next fence; matches are deleted from left to right.\<close>

function reStripFences_delete :: "string \<Rightarrow> string" where
  "reStripFences_delete [] = []"
| "reStripFences_delete (c # cs) =
     (if HasPrefix (c # cs) fence
      then (case after_fence (drop 2 cs) of
              Some rest \<Rightarrow> reStripFences_delete rest
            | None \<Rightarrow> c # reStripFences_delete cs)
      else c # reStripFences_delete cs)"
  by pat_completeness auto
termination
proof (relation "measure length")
  fix c :: char and cs rest :: string
  assume "after_fence (drop 2 cs) = Some rest"
  then have "length rest < length (drop 2 cs)"
    by (rule after_fence_length)
  then show "(rest, c # cs) \<in> measure length"
    by simp
qed auto

subsection \<open>\<open>reStripHead = (?m)^#+\s*\<close>\<close>

text \<open>\<open>reStripHead.ReplaceAllString(s, "")\<close>. Both repetitions are greedy and nothing
  follows them, so a match is the whole run of \<open>#\<close> and the whole run of white space
  after it (newlines too). The search goes on where the match ended; \<open>^\<close> holds there
  when the match ended in a newline.\<close>

function reStripHead_delete :: "bool \<Rightarrow> string \<Rightarrow> string" where
  "reStripHead_delete bol [] = []"
| "reStripHead_delete bol (c # cs) =
     (if bol \<and> c = CHR ''#''
      then
        let r = dropWhile (\<lambda>x. x = CHR ''#'') cs;
            sp = takeWhile re_space r
        in reStripHead_delete (sp \<noteq> [] \<and> last sp = CHR 0x0A) (dropWhile re_space r)
      else c # reStripHead_delete (c = CHR 0x0A) cs)"
  by pat_completeness auto
termination
  by (relation "measure (\<lambda>(b, s). length s)")
    (auto simp: less_Suc_eq_le intro: order_trans [OF length_dropWhile_le length_dropWhile_le])

section \<open>The post transformer\<close>

definition ellipsis :: string where
  "ellipsis = [CHR 0xE2, CHR 0x80, CHR 0xA6]"

text \<open>The text \<open>s\<close> that \<open>makeExcerpt\<close> has before it measures it.\<close>

definition excerpt_text :: "string \<Rightarrow> string" where
  "excerpt_text md =
     (let s1 = reStripFences_delete md;
          s2 = reStripHead_delete True s1;
          s3 = TrimSpace s2;
          s4 = ReplaceAll s3 (CHR 0x0A) (CHR '' '')
      in Join (Fields s4) '' '')"

text \<open>The bound \<open>n\<close> is an \<open>int\<close> in the source, where a negative bound makes \<open>r[:n]\<close>
  panic; the one call passes 140, and \<open>n\<close> is a natural number here.\<close>

definition makeExcerpt :: "string \<Rightarrow> nat \<Rightarrow> string" where
  "makeExcerpt md n =
     (let s = excerpt_text md; r = runes s
      in if length r > n then string_of_runes (take n r) @ ellipsis else s)"

text \<open>\<open>path.Base\<close> and \<open>path.Ext\<close>.\<close>

definition path_Base :: "string \<Rightarrow> string" where
  "path_Base p =
     (if p = [] then ''.''
      else
        let p1 = rev (dropWhile (\<lambda>c. c = CHR ''/'') (rev p));
            p2 = rev (takeWhile (\<lambda>c. c \<noteq> CHR ''/'') (rev p1))
        in if p2 = [] then ''/'' else p2)"

definition path_Ext :: "string \<Rightarrow> string" where
  "path_Ext p =
     (let e = takeWhile (\<lambda>c. c \<noteq> CHR ''/'') (rev p)
      in if CHR ''.'' \<in> set e then CHR ''.'' # rev (takeWhile (\<lambda>c. c \<noteq> CHR ''.'') e) else [])"

section \<open>Posts, cache and the remote repository\<close>

text \<open>
  Errors are values. \<open>RemoteError\<close> and \<open>RenderError\<close> stand for whatever
  \<open>ghGetJSON\<close>, the base64 decoder or \<open>md.Convert\<close> return, \<open>OsError\<close> and
  \<open>JsonError\<close> for the errors of the file system and of \<open>json.Unmarshal\<close>; the
  other three are the errors \<open>fetchPosts\<close> makes itself.
\<close>

datatype error =
    RemoteError string
  | RenderError string
  | OsError string
  | JsonError string
  | FetchTree error
  | NoMarkdownFound string
  | NothingRendered

type_synonym time = nat

record Config =
  Owner :: string
  Repo :: string
  Branch :: string
  ContentDir :: string
  DataDir :: string

record Post =
  Slug :: string
  Title :: string
  Excerpt :: string
  HTML :: string
  SourcePath :: string

record Cache =
  posts :: "Post list"
  bySlug :: "string \<rightharpoonup> Post"
  lastSync :: time
  lastErr :: "error option"

text \<open>An entry of \<open>ghTreeResp.Tree\<close>.\<close>

record TreeEntry =
  Path :: string
  Type :: string

text \<open>
  What the remote repository answers during one sync pass, once a request has been
  sent: \<open>ghTree\<close> is what \<open>ghGetJSON\<close> returns for the tree URL (an error of the
  client or of the decoder, or the listing), and \<open>ghFile\<close> is, for each path, what
  \<open>ghFetchFile\<close> returns (an error of the client, of the decoder or of base64, or the
  body). The markdown converter \<open>md.Convert\<close> is a function from the body to the
  markup or an error.
\<close>

record Remote =
  ghTree :: "error + TreeEntry list"
  ghFile :: "string \<Rightarrow> error + string"

type_synonym Markdown = "string \<Rightarrow> error + string"

section \<open>Requests: \<open>ghGetJSON\<close> and \<open>ghFetchFile\<close>\<close>

text \<open>
  A call either returns or panics. The program recovers from no panic, so a panic
  ends the pass, and the process with it.
\<close>

datatype 'a outcome = Panic | Return 'a

text \<open>
  \<open>http.NewRequestWithContext(ctx, "GET", url, nil)\<close> returns no request (\<open>nil\<close> and
  an error) exactly when \<open>url.Parse\<close> rejects the URL. Every URL of the program begins
  with \<open>https://api.github.com/repos/\<close>, so its scheme and its host are well formed,
  and \<open>url.Parse\<close> rejects it in these cases: the part before the first \<open>#\<close> has an
  ASCII control character; or a \<open>%\<close> of the path (which ends at the first \<open>?\<close>) or of
  the fragment (which begins after the first \<open>#\<close>) is not followed by two hexadecimal
  digits. The query is not examined.
\<close>

definition ishex :: "char \<Rightarrow> bool" where
  "ishex c = (is_digit c \<or> (CHR ''a'' \<le> c \<and> c \<le> CHR ''f'') \<or> (CHR ''A'' \<le> c \<and> c \<le> CHR ''F''))"

fun unescape_ok :: "string \<Rightarrow> bool" where
  "unescape_ok [] = True"
| "unescape_ok (c # s) =
     (if c = CHR ''%''
      then (case s of
              a # b # r \<Rightarrow> ishex a \<and> ishex b \<and> unescape_ok r
            | _ \<Rightarrow> False)
      else unescape_ok s)"

definition stringContainsCTLByte :: "string \<Rightarrow> bool" where
  "stringContainsCTLByte s = list_ex (\<lambda>c. (of_char c :: nat) < 0x20 \<or> (of_char c :: nat) = 0x7F) s"

definition url_Parse_ok :: "string \<Rightarrow> bool" where
  "url_Parse_ok rawURL =
     (let u = takeWhile (\<lambda>c. c \<noteq> CHR ''#'') rawURL;
          frag = drop 1 (dropWhile (\<lambda>c. c \<noteq> CHR ''#'') rawURL);
          rest = takeWhile (\<lambda>c. c \<noteq> CHR ''?'') u
      in \<not> stringContainsCTLByte u \<and> unescape_ok rest \<and> unescape_ok frag)"

text \<open>
  \<open>ghGetJSON\<close> drops the error of \<open>http.NewRequestWithContext\<close>
  (\<open>req, _ := ...\<close>) and sets a header on the request at once: when there is no
  request, \<open>req.Header.Set\<close> dereferences \<open>nil\<close> and panics. Otherwise the request
  is sent and \<open>ghGetJSON\<close> returns what the remote repository answers, \<open>answer\<close>.
\<close>

definition ghGetJSON :: "string \<Rightarrow> error + 'a \<Rightarrow> (error + 'a) outcome" where
  "ghGetJSON url answer = (if url_Parse_ok url then Return answer else Panic)"

text \<open>The two URLs, as \<open>fmt.Sprintf\<close> builds them in \<open>fetchPosts\<close> and in
  \<open>ghFetchFile\<close>.\<close>

definition treeURL :: "Config \<Rightarrow> string" where
  "treeURL cfg =
     ''https://api.github.com/repos/'' @ Owner cfg @ ''/'' @ Repo cfg @ ''/git/trees/''
       @ Branch cfg @ ''?recursive=1''"

definition fileURL :: "Config \<Rightarrow> string \<Rightarrow> string" where
  "fileURL cfg filePath =
     ''https://api.github.com/repos/'' @ Owner cfg @ ''/'' @ Repo cfg @ ''/contents/''
       @ filePath @ ''?ref='' @ Branch cfg"

definition ghFetchFile :: "Config \<Rightarrow> Remote \<Rightarrow> string \<Rightarrow> (error + string) outcome" where
  "ghFetchFile cfg gh filePath = ghGetJSON (fileURL cfg filePath) (ghFile gh filePath)"

text \<open>The loop \<open>for _, p := range posts { cache.bySlug[p.Slug] = p }\<close>.\<close>

fun index_posts :: "(string \<rightharpoonup> Post) \<Rightarrow> Post list \<Rightarrow> (string \<rightharpoonup> Post)" where
  "index_posts m [] = m"
| "index_posts m (p # ps) = index_posts (m(Slug p \<mapsto> p)) ps"

section \<open>The sync pass: \<open>fetchPosts\<close>\<close>

definition content_prefix :: "Config \<Rightarrow> string" where
  "content_prefix cfg = Trim (ContentDir cfg) (CHR ''/'') @ ''/''"

definition is_candidate :: "string \<Rightarrow> TreeEntry \<Rightarrow> bool" where
  "is_candidate prefix it =
     (Type it = ''blob'' \<and> HasPrefix (Path it) prefix \<and> HasSuffix (ToLower (Path it)) ''.md'')"

text \<open>The candidate list before it is sorted.\<close>

definition candidates :: "Config \<Rightarrow> TreeEntry list \<Rightarrow> string list" where
  "candidates cfg items = map Path (filter (is_candidate (content_prefix cfg)) items)"

definition post_title :: "string \<Rightarrow> string \<Rightarrow> string" where
  "post_title p body =
     (let title = extractTitle body
      in if title = [] then TrimSuffix (path_Base p) (path_Ext p) else title)"

definition post_slug :: "string \<Rightarrow> string \<Rightarrow> string" where
  "post_slug prefix p = slugify (TrimSuffix (TrimPrefix p prefix) ''.md'')"

text \<open>The loop over \<open>mdFiles\<close>, with the two variables it appends to. \<open>fetch\<close> is
  \<open>ghFetchFile\<close> with its context and configuration; when it panics, so does the loop.\<close>

fun fetch_loop ::
  "string \<Rightarrow> Markdown \<Rightarrow> (string \<Rightarrow> (error + string) outcome) \<Rightarrow> string list
     \<Rightarrow> Post list \<times> (string \<rightharpoonup> string) \<Rightarrow> (Post list \<times> (string \<rightharpoonup> string)) outcome" where
  "fetch_loop prefix md fetch [] acc = Return acc"
| "fetch_loop prefix md fetch (p # ps) (out, rawBySlug) =
     (case fetch p of
        Panic \<Rightarrow> Panic
      | Return (Inl e) \<Rightarrow> fetch_loop prefix md fetch ps (out, rawBySlug)
      | Return (Inr body) \<Rightarrow>
          let title = post_title p body;
              excerpt = makeExcerpt body 140
          in (case md body of
                Inl e \<Rightarrow> fetch_loop prefix md fetch ps (out, rawBySlug)
              | Inr html \<Rightarrow>
                  let slug = post_slug prefix p;
                      post = \<lparr>Slug = slug, Title = title, Excerpt = excerpt, HTML = html,
                               SourcePath = p\<rparr>;
                      raw = rawBySlug(slug \<mapsto> body)
                  in fetch_loop prefix md fetch ps (out @ [post], raw)))"

text \<open>
  \<open>sort.Slice\<close> with \<open>posts[i].SourcePath > posts[j].SourcePath\<close>: descending by source
  path. Posts with the same source path come from the same fetched body and are equal, so
  the sorted list does not depend on the sorting algorithm.
\<close>

definition sort_posts :: "Post list \<Rightarrow> Post list" where
  "sort_posts ps = rev (sort_key SourcePath ps)"

text \<open>The three results of the source are a triple; \<open>None\<close> is the \<open>nil\<close> error.\<close>

definition fetchPosts ::
  "Config \<Rightarrow> Markdown \<Rightarrow> Remote
     \<Rightarrow> (Post list \<times> (string \<rightharpoonup> string) \<times> error option) outcome" where
  "fetchPosts cfg md gh =
     (case ghGetJSON (treeURL cfg) (ghTree gh) of
        Panic \<Rightarrow> Panic
      | Return (Inl e) \<Rightarrow> Return ([], Map.empty, Some (FetchTree e))
      | Return (Inr items) \<Rightarrow>
          let mdFiles = sort (candidates cfg items)
          in if mdFiles = []
             then Return ([], Map.empty, Some (NoMarkdownFound (ContentDir cfg)))
             else
               (case fetch_loop (content_prefix cfg) md (ghFetchFile cfg gh) mdFiles
                       ([], Map.empty) of
                  Panic \<Rightarrow> Panic
                | Return (out, rawBySlug) \<Rightarrow>
                    if out = [] then Return ([], Map.empty, Some NothingRendered)
                    else Return (sort_posts out, rawBySlug, None)))"

section \<open>The disk mirror\<close>

text \<open>An entry of \<open>diskIndex.Posts\<close> and the manifest \<open>diskIndex\<close>.\<close>

record IndexEntry =
  ix_slug :: string
  ix_title :: string
  ix_excerpt :: string
  ix_source_path :: string

record diskIndex =
  GeneratedAt :: time
  RepoLabel :: string
  Posts :: "IndexEntry list"

text \<open>
  The local directory. \<open>files\<close> maps a path to the bytes of a regular file (absent or
  unreadable: \<open>None\<close>). The two manifest files \<open>index.json\<close> and \<open>index.json.tmp\<close> are
  kept apart from them (no markdown file has their names, which do not end in \<open>.md\<close>)
  and hold what \<open>json.Unmarshal\<close> makes of their text: no file, text that does not
  decode, or a manifest. \<open>os_fail\<close> says which calls of the operating system fail.
\<close>

datatype index_file = NoFile | BadJSON | Manifest diskIndex

datatype os_call = MkdirAll string | WriteFile string | Rename string string

record Disk =
  files :: "string \<rightharpoonup> string"
  index_json :: index_file
  index_tmp :: index_file
  os_fail :: "os_call \<Rightarrow> error option"

text \<open>
  \<open>encoding/json\<close> writes a string as valid UTF-8: each byte that is not part of a
  well-formed sequence is written as U+FFFD. This is what a string is after
  \<open>json.MarshalIndent\<close> and \<open>json.Unmarshal\<close>.
\<close>

definition json_string :: "string \<Rightarrow> string" where
  "json_string s = string_of_runes (runes s)"

definition json_entry :: "IndexEntry \<Rightarrow> IndexEntry" where
  "json_entry it =
     \<lparr>ix_slug = json_string (ix_slug it), ix_title = json_string (ix_title it),
      ix_excerpt = json_string (ix_excerpt it),
      ix_source_path = json_string (ix_source_path it)\<rparr>"

definition json_index :: "diskIndex \<Rightarrow> diskIndex" where
  "json_index idx =
     \<lparr>GeneratedAt = GeneratedAt idx, RepoLabel = json_string (RepoLabel idx),
      Posts = map json_entry (Posts idx)\<rparr>"

text \<open>\<open>filepath.Join\<close> of the data directory and a file name. (The source cleans the
  joined path, which changes nothing for the directory \<open>data\<close> and the names
  \<open>slug.md\<close> of slugs made by \<open>slugify\<close>.)\<close>

definition filepath_Join :: "string \<Rightarrow> string \<Rightarrow> string" where
  "filepath_Join dir name = dir @ ''/'' @ name"

definition repoLabel :: "Config \<Rightarrow> string" where
  "repoLabel cfg =
     Owner cfg @ ''/'' @ Repo cfg @ '':'' @ Branch cfg @ ''/'' @ Trim (ContentDir cfg) (CHR ''/'')"

definition index_entry :: "Post \<Rightarrow> IndexEntry" where
  "index_entry p =
     \<lparr>ix_slug = Slug p, ix_title = Title p, ix_excerpt = Excerpt p,
      ix_source_path = SourcePath p\<rparr>"

text \<open>The first loop of \<open>savePostsToDisk\<close>: one markdown file for each post.\<close>

fun write_bodies ::
  "Config \<Rightarrow> (string \<rightharpoonup> string) \<Rightarrow> Post list \<Rightarrow> Disk \<Rightarrow> Disk \<times> error option" where
  "write_bodies cfg rawBySlug [] d = (d, None)"
| "write_bodies cfg rawBySlug (p # ps) d =
     (case rawBySlug (Slug p) of
        None \<Rightarrow> write_bodies cfg rawBySlug ps d
      | Some raw \<Rightarrow>
          let fp = filepath_Join (DataDir cfg) (Slug p @ ''.md'')
          in (case os_fail d (WriteFile fp) of
                Some e \<Rightarrow> (d, Some e)
              | None \<Rightarrow> write_bodies cfg rawBySlug ps (d\<lparr>files := (files d)(fp \<mapsto> raw)\<rparr>)))"

text \<open>\<open>gen\<close> is the \<open>time.Now()\<close> of \<open>idx.GeneratedAt\<close>.\<close>

definition savePostsToDisk ::
  "Config \<Rightarrow> time \<Rightarrow> Post list \<Rightarrow> (string \<rightharpoonup> string) \<Rightarrow> Disk \<Rightarrow> Disk \<times> error option" where
  "savePostsToDisk cfg gen ps rawBySlug d =
     (case os_fail d (MkdirAll (DataDir cfg)) of
        Some e \<Rightarrow> (d, Some e)
      | None \<Rightarrow>
          (case write_bodies cfg rawBySlug ps d of
             (d1, Some e) \<Rightarrow> (d1, Some e)
           | (d1, None) \<Rightarrow>
               let idx = \<lparr>GeneratedAt = gen, RepoLabel = repoLabel cfg,
                          Posts = map index_entry ps\<rparr>;
                   tmp = filepath_Join (DataDir cfg) ''index.json.tmp'';
                   final = filepath_Join (DataDir cfg) ''index.json''
               in (case os_fail d1 (WriteFile tmp) of
                     Some e \<Rightarrow> (d1, Some e)
                   | None \<Rightarrow>
                       let d2 = d1\<lparr>index_tmp := Manifest (json_index idx)\<rparr>
                       in (case os_fail d2 (Rename tmp final) of
                             Some e \<Rightarrow> (d2, Some e)
                           | None \<Rightarrow>
                               (d2\<lparr>index_json := index_tmp d2, index_tmp := NoFile\<rparr>, None)))))"

text \<open>The loop of \<open>loadPostsFromDisk\<close>.\<close>

fun load_loop :: "Config \<Rightarrow> Markdown \<Rightarrow> Disk \<Rightarrow> IndexEntry list \<Rightarrow> Post list \<Rightarrow> Post list" where
  "load_loop cfg md d [] out = out"
| "load_loop cfg md d (it # its) out =
     (case files d (filepath_Join (DataDir cfg) (ix_slug it @ ''.md'')) of
        None \<Rightarrow> load_loop cfg md d its out
      | Some raw \<Rightarrow>
          (case md raw of
             Inl e \<Rightarrow> load_loop cfg md d its out
           | Inr html \<Rightarrow>
               load_loop cfg md d its
                 (out @ [\<lparr>Slug = ix_slug it, Title = ix_title it, Excerpt = ix_excerpt it,
                           HTML = html, SourcePath = ix_source_path it\<rparr>])))"

definition loadPostsFromDisk :: "Config \<Rightarrow> Markdown \<Rightarrow> Disk \<Rightarrow> Post list \<times> error option" where
  "loadPostsFromDisk cfg md d =
     (case index_json d of
        NoFile \<Rightarrow> ([], Some (OsError ''open index.json: no such file or directory''))
      | BadJSON \<Rightarrow> ([], Some (JsonError ''invalid manifest''))
      | Manifest idx \<Rightarrow> (load_loop cfg md d (Posts idx) [], None))"

section \<open>\<open>syncOnce\<close> and the start of \<open>main\<close>\<close>

text \<open>
  \<open>syncOnce\<close> of the program with the disk mirror. \<open>now\<close> is the \<open>time.Now()\<close> stored
  in \<open>lastSync\<close>. The state is the cache and the disk; the result is the new state and
  the error returned. An error of \<open>savePostsToDisk\<close> is logged only. \<open>fetchPosts\<close> is
  called before the cache is locked: when it panics, nothing has been stored.
\<close>

definition syncOnce ::
  "Config \<Rightarrow> Markdown \<Rightarrow> Remote \<Rightarrow> time \<Rightarrow> time \<Rightarrow> Cache \<times> Disk
     \<Rightarrow> ((Cache \<times> Disk) \<times> error option) outcome" where
  "syncOnce cfg md gh now gen st =
     (case fetchPosts cfg md gh of
        Panic \<Rightarrow> Panic
      | Return (ps, rawBySlug, err) \<Rightarrow>
          let c1 = (fst st)\<lparr>lastSync := now, lastErr := err\<rparr>;
              c2 = (if err = None \<and> ps \<noteq> []
                    then c1\<lparr>posts := ps, bySlug := index_posts Map.empty ps\<rparr> else c1);
              d2 = (if err = None \<and> ps \<noteq> []
                    then fst (savePostsToDisk cfg gen ps rawBySlug (snd st)) else snd st)
          in Return ((c2, d2), err))"

text \<open>The cache \<open>main\<close> creates, \<open>&Cache{bySlug: map[string]Post{}}\<close>, with the zero time
  \<open>0\<close>, and the block of \<open>main\<close> that loads the posts from the disk into it.\<close>

definition new_cache :: Cache where
  "new_cache = \<lparr>posts = [], bySlug = Map.empty, lastSync = 0, lastErr = None\<rparr>"

definition main_load :: "Config \<Rightarrow> Markdown \<Rightarrow> Disk \<Rightarrow> Cache" where
  "main_load cfg md d =
     (case loadPostsFromDisk cfg md d of
        (ps, e) \<Rightarrow>
          if e = None \<and> ps \<noteq> []
          then new_cache\<lparr>posts := ps, bySlug := index_posts (bySlug new_cache) ps\<rparr>
          else new_cache)"

subsection \<open>The program without the disk mirror\<close>

text \<open>
  The repository holds a second program of the same shape, without the disk mirror.
  Its \<open>fetchPosts\<close> does not sort the candidates and has neither of the two checks for
  an empty result; the body of its loop is the same, without \<open>rawBySlug\<close>. Its
  \<open>syncOnce\<close> replaces the cache whenever the error is \<open>nil\<close>. Its \<open>ghGetJSON\<close> and
  \<open>ghFetchFile\<close> are those of the program with the mirror.
\<close>

definition fetchPosts_nomirror ::
  "Config \<Rightarrow> Markdown \<Rightarrow> Remote \<Rightarrow> (Post list \<times> error option) outcome" where
  "fetchPosts_nomirror cfg md gh =
     (case ghGetJSON (treeURL cfg) (ghTree gh) of
        Panic \<Rightarrow> Panic
      | Return (Inl e) \<Rightarrow> Return ([], Some (FetchTree e))
      | Return (Inr items) \<Rightarrow>
          (case fetch_loop (content_prefix cfg) md (ghFetchFile cfg gh)
                  (candidates cfg items) ([], Map.empty) of
             Panic \<Rightarrow> Panic
           | Return (out, rawBySlug) \<Rightarrow> Return (sort_posts out, None)))"

definition syncOnce_nomirror ::
  "Config \<Rightarrow> Markdown \<Rightarrow> Remote \<Rightarrow> time \<Rightarrow> Cache \<Rightarrow> (Cache \<times> error option) outcome" where
  "syncOnce_nomirror cfg md gh now cache =
     (case fetchPosts_nomirror cfg md gh of
        Panic \<Rightarrow> Panic
      | Return (ps, err) \<Rightarrow>
          let c1 = cache\<lparr>lastSync := now, lastErr := err\<rparr>
          in Return (if err = None then c1\<lparr>posts := ps, bySlug := index_posts Map.empty ps\<rparr>
                     else c1,
                     err))"

section \<open>Auxiliary notions for the statements\<close>

text \<open>The post the loop of \<open>fetchPosts\<close> appends for a path, if the file can be fetched
  and rendered.\<close>

definition post_of ::
  "string \<Rightarrow> Markdown \<Rightarrow> (string \<Rightarrow> error + string) \<Rightarrow> string \<Rightarrow> Post option" where
  "post_of prefix md fetch p =
     (case fetch p of
        Inl e \<Rightarrow> None
      | Inr body \<Rightarrow>
          (case md body of
             Inl e \<Rightarrow> None
           | Inr html \<Rightarrow>
               Some \<lparr>Slug = post_slug prefix p, Title = post_title p body,
                     Excerpt = makeExcerpt body 140, HTML = html, SourcePath = p\<rparr>))"

text \<open>The Unicode scalar values, and what \<open>string(r)\<close> keeps of a rune.\<close>

definition valid_rune :: "rune \<Rightarrow> bool" where
  "valid_rune r = (r \<le> 0x10FFFF \<and> \<not> (0xD800 \<le> r \<and> r \<le> 0xDFFF))"

definition norm_rune :: "rune \<Rightarrow> rune" where
  "norm_rune r = (if valid_rune r then r else RuneError)"

text \<open>
  The slug described character by character. One character of the path gives one
  character of the slug or none (\<open>slug_char\<close>): a path separator (slash or backslash),
  a space, an underscore and a hyphen give the separator \<open>-\<close>, a letter gives its
  lower-case form, a digit stays, and every other character is stripped. The separators
  at the two ends are trimmed, and \<open>post\<close> stands for an empty result.
\<close>

definition is_alnum :: "char \<Rightarrow> bool" where
  "is_alnum c = (is_lower c \<or> is_upper c \<or> is_digit c)"

definition slug_char :: "char \<Rightarrow> string" where
  "slug_char c =
     (if c = CHR 0x5C \<or> c = CHR ''/'' \<or> c = CHR '' '' \<or> c = CHR ''_'' \<or> c = CHR ''-''
      then ''-''
      else if is_alnum c then [lower_byte c] else [])"

definition slug_spec :: "string \<Rightarrow> string" where
  "slug_spec rel =
     (let t = Trim (concat (map slug_char rel)) (CHR ''-'')
      in if t = [] then ''post'' else t)"

text \<open>
  The paths for which the slug is stated. \<open>inner s\<close> is \<open>s\<close> without the slashes at
  its front and without the characters after them that are neither letter, digit nor
  slash. In a path with clean ends, what comes next at the front is a letter or a digit
  (or nothing), and likewise from the back: outside the first and the last letter or
  digit, no slash has another character between it and the end of the path.
\<close>

definition is_slash :: "char \<Rightarrow> bool" where
  "is_slash c = (c = CHR ''/'' \<or> c = CHR 0x5C)"

definition inner :: "string \<Rightarrow> string" where
  "inner s = dropWhile (\<lambda>c. \<not> is_alnum c \<and> \<not> is_slash c) (dropWhile is_slash s)"

definition ends_clean :: "string \<Rightarrow> bool" where
  "ends_clean s =
     ((inner s = [] \<or> is_alnum (hd (inner s)))
      \<and> (inner (rev s) = [] \<or> is_alnum (hd (inner (rev s)))))"

text \<open>The scenario of the specification: the listing has \<open>data/a.md\<close> and
  \<open>data/b.md\<close>, the first cannot be fetched, the second has a heading and one line.\<close>

definition scenario_cfg :: Config where
  "scenario_cfg =
     \<lparr>Owner = ''lipcoder'', Repo = ''notes'', Branch = ''main'', ContentDir = ''data'',
      DataDir = ''data''\<rparr>"

definition scenario_remote :: Remote where
  "scenario_remote =
     \<lparr>ghTree = Inr [\<lparr>Path = ''data/a.md'', Type = ''blob''\<rparr>,
                     \<lparr>Path = ''data/b.md'', Type = ''blob''\<rparr>],
      ghFile = (\<lambda>p. if p = ''data/b.md'' then Inr ''# Hello\<newline>World''
                          else Inl (RemoteError ''github 500''))\<rparr>"

text \<open>
  White space inside a line. A line without a marker of a level-1 heading: it is blank,
  or its first character after the white space is not \<open>#\<close>, or a character that is no
  white space follows that \<open>#\<close> (as in \<open>##\<close>). And the text made of lines, each
  ended by a newline.
\<close>

definition hspace :: "char \<Rightarrow> bool" where
  "hspace c = (re_space c \<and> c \<noteq> CHR 0x0A)"

definition not_h1_line :: "string \<Rightarrow> bool" where
  "not_h1_line l =
     (CHR 0x0A \<notin> set l \<and>
      (case dropWhile re_space l of
         [] \<Rightarrow> True
       | c # r \<Rightarrow> c \<noteq> CHR ''#'' \<or> (r \<noteq> [] \<and> \<not> re_space (hd r))))"

definition unlines :: "string list \<Rightarrow> string" where
  "unlines ls = concat (map (\<lambda>l. l @ [CHR 0x0A]) ls)"

text \<open>A file in Latin-1: its last byte is no valid UTF-8.\<close>

definition latin1_remote :: Remote where
  "latin1_remote =
     \<lparr>ghTree = Inr [\<lparr>Path = ''data/a.md'', Type = ''blob''\<rparr>],
      ghFile = (\<lambda>p. Inr (''# caf'' @ [CHR 0xE9]))\<rparr>"

text \<open>A string is valid UTF-8 when encoding its runes gives it back; the four fields
  of a post that the manifest keeps; the path of the markdown file of a slug.\<close>

definition utf8_valid :: "string \<Rightarrow> bool" where
  "utf8_valid s = (string_of_runes (runes s) = s)"

definition post_meta :: "Post \<Rightarrow> string \<times> string \<times> string \<times> string" where
  "post_meta p = (Slug p, Title p, Excerpt p, SourcePath p)"

definition body_path :: "Config \<Rightarrow> string \<Rightarrow> string" where
  "body_path cfg slug = filepath_Join (DataDir cfg) (slug @ ''.md'')"

text \<open>What the pass returns in the scenario when the converter returns the body, and
  what it returns for the file in Latin-1.\<close>

definition scenario_posts :: "Post list" where
  "scenario_posts =
     [\<lparr>Slug = ''b'', Title = ''Hello'', Excerpt = ''Hello World'',
       HTML = ''# Hello\<newline>World'', SourcePath = ''data/b.md''\<rparr>]"

definition scenario_raw :: "string \<rightharpoonup> string" where
  "scenario_raw = [''b'' \<mapsto> ''# Hello\<newline>World'']"

definition latin1_posts :: "Post list" where
  "latin1_posts =
     [\<lparr>Slug = ''a'', Title = ''caf'' @ [CHR 0xE9], Excerpt = ''caf'' @ [CHR 0xE9],
       HTML = ''# caf'' @ [CHR 0xE9], SourcePath = ''data/a.md''\<rparr>]"

definition latin1_raw :: "string \<rightharpoonup> string" where
  "latin1_raw = [''a'' \<mapsto> ''# caf'' @ [CHR 0xE9]]"

text \<open>Two files whose paths give the same slug, and an empty disk that never fails.\<close>

definition collision_remote :: Remote where
  "collision_remote =
     \<lparr>ghTree = Inr [\<lparr>Path = ''data/foo-bar.md'', Type = ''blob''\<rparr>,
                     \<lparr>Path = ''data/foo/bar.md'', Type = ''blob''\<rparr>],
      ghFile = (\<lambda>p. Inr p)\<rparr>"

definition empty_disk :: Disk where
  "empty_disk = \<lparr>files = Map.empty, index_json = NoFile, index_tmp = NoFile,
                  os_fail = (\<lambda>c. None)\<rparr>"

section \<open>Evaluation on concrete texts\<close>

text \<open>A byte below 128 is a rune of its own; with this rule and the definitions the
  simplifier computes the functions above on ASCII texts.\<close>

lemma runes_w_ascii:
  "of_char c < (128::nat) \<Longrightarrow> runes_w (c # cs) = (of_char c, [c]) # runes_w cs"
  by simp

lemmas str_eval = HasPrefix_def HasSuffix_def TrimPrefix_def TrimSuffix_def Trim_def
  ReplaceAll_def is_upper_def is_lower_def is_digit_def lower_byte_def ToLower_def
  slug_bad_def reSlugBad_delete_def slugify_def less_eq_char_def less_char_def
  char_of_eq_iff
  path_Base_def path_Ext_def

lemmas text_eval = runes_w_ascii runes_def IsSpace_def TrimSpace_def Fields_def re_space_def
  re_spaces_eol_def reH1_here_def extractTitle_def fence_def HasPrefix_def
  excerpt_text_def makeExcerpt_def ReplaceAll_def Let_def

lemmas sync_eval = content_prefix_def is_candidate_def candidates_def post_title_def
  post_slug_def sort_posts_def fetchPosts_def syncOnce_def

section \<open>Facts about the sync pass\<close>

lemma index_posts_lookup:
  "index_posts m ps s =
     (case filter (\<lambda>p. Slug p = s) ps of [] \<Rightarrow> m s | x # xs \<Rightarrow> Some (last (x # xs)))"
  by (induction ps arbitrary: m) (auto split: list.splits)

lemma ghFetchFile_cases:
  "ghFetchFile cfg gh p =
     (if url_Parse_ok (fileURL cfg p) then Return (ghFile gh p) else Panic)"
  by (simp add: ghFetchFile_def ghGetJSON_def)

lemma fetch_loop_result:
  "fetch_loop prefix md (ghFetchFile cfg gh) ps (out, raw) = Panic \<or>
   (\<exists>raw'. fetch_loop prefix md (ghFetchFile cfg gh) ps (out, raw) =
        Return (out @ List.map_filter (post_of prefix md (ghFile gh)) ps, raw'))"
proof (induction ps arbitrary: out raw)
  case Nil
  then show ?case by simp
next
  case (Cons a ps)
  show ?case
  proof (cases "url_Parse_ok (fileURL cfg a)")
    case False
    then show ?thesis by (simp add: ghFetchFile_cases)
  next
    case True
    show ?thesis
    proof (cases "ghFile gh a")
      case (Inl e)
      with True Cons.IH [of out raw] show ?thesis
        by (simp add: ghFetchFile_cases post_of_def)
    next
      case (Inr body)
      show ?thesis
      proof (cases "md body")
        case (Inl e)
        with Inr True Cons.IH [of out raw] show ?thesis
          by (simp add: ghFetchFile_cases post_of_def)
      next
        case h: (Inr html)
        define post where "post = \<lparr>Slug = post_slug prefix a, Title = post_title a body,
          Excerpt = makeExcerpt body 140, HTML = html, SourcePath = a\<rparr>"
        have g: "ghFetchFile cfg gh a = Return (Inr body)"
          using True Inr by (simp add: ghFetchFile_cases)
        define raw2 where "raw2 = raw(post_slug prefix a \<mapsto> body)"
        have step: "fetch_loop prefix md (ghFetchFile cfg gh) (a # ps) (out, raw) =
            fetch_loop prefix md (ghFetchFile cfg gh) ps (out @ [post], raw2)"
          using g h by (simp add: Let_def post_def raw2_def)
        have pm: "List.map_filter (post_of prefix md (ghFile gh)) (a # ps) =
            post # List.map_filter (post_of prefix md (ghFile gh)) ps"
          using Inr h by (simp add: post_of_def post_def)
        from Cons.IH [of "out @ [post]" raw2]
        show ?thesis unfolding step pm by simp
      qed
    qed
  qed
qed

lemma fetch_loop_posts:
  assumes "fetch_loop prefix md (ghFetchFile cfg gh) ps (out, raw) = Return (out', raw')"
  shows "out' = out @ List.map_filter (post_of prefix md (ghFile gh)) ps"
  using assms fetch_loop_result [of prefix md cfg gh ps out raw] by auto

lemma fetch_loop_Panic:
  "fetch_loop prefix md (ghFetchFile cfg gh) ps (out, raw) = Panic \<longleftrightarrow>
     (\<exists>p\<in>set ps. \<not> url_Parse_ok (fileURL cfg p))"
  by (induction ps arbitrary: out raw)
     (auto simp: Let_def ghFetchFile_cases split: sum.splits if_splits)

lemma post_of_SourcePath: "post_of prefix md fetch p = Some x \<Longrightarrow> SourcePath x = p"
  by (auto simp: post_of_def split: sum.splits)

lemma map_filter_Nil_iff: "List.map_filter f xs = [] \<longleftrightarrow> (\<forall>x\<in>set xs. f x = None)"
  by (induction xs) (auto split: option.splits)

lemma mset_map_filter_sort: "mset (List.map_filter f (sort xs)) = mset (List.map_filter f xs)"
  by (simp add: List.map_filter_def)

lemma sort_Nil_iff: "sort xs = [] \<longleftrightarrow> xs = []"
  by (metis length_0_conv length_sort)

lemma sorted_sort_posts: "sorted_wrt (\<lambda>a b. SourcePath a \<ge> SourcePath b) (sort_posts ps)"
proof -
  have "sorted (map SourcePath (sort_key SourcePath ps))"
    by simp
  then have "sorted_wrt (\<lambda>a b. SourcePath a \<le> SourcePath b) (sort_key SourcePath ps)"
    by (simp add: sorted_wrt_map)
  then show ?thesis
    by (simp add: sort_posts_def sorted_wrt_rev)
qed

lemma mset_sort_posts: "mset (sort_posts ps) = mset ps"
  by (simp add: sort_posts_def)

lemma sort_posts_Nil: "sort_posts ps = [] \<longleftrightarrow> ps = []"
  by (metis mset_sort_posts mset_zero_iff)

text \<open>When the pass returns, every request could be built, the listing was read as it
  is, and the loop went over the sorted candidates.\<close>

lemma fetchPosts_Return:
  assumes "fetchPosts cfg md gh = Return (ps, raw, err)"
  shows "url_Parse_ok (treeURL cfg) \<and>
         (case ghTree gh of
            Inl e \<Rightarrow> ps = [] \<and> err = Some (FetchTree e)
          | Inr items \<Rightarrow>
              if candidates cfg items = []
              then ps = [] \<and> err = Some (NoMarkdownFound (ContentDir cfg))
              else (\<exists>out r. fetch_loop (content_prefix cfg) md (ghFetchFile cfg gh)
                              (sort (candidates cfg items)) ([], Map.empty) = Return (out, r)
                            \<and> (if out = [] then ps = [] \<and> err = Some NothingRendered
                               else ps = sort_posts out \<and> raw = r \<and> err = None)))"
  using assms
  by (auto simp: fetchPosts_def ghGetJSON_def Let_def sort_Nil_iff
      split: if_splits sum.splits outcome.splits prod.splits)

lemma fetchPosts_err:
  assumes "fetchPosts cfg md gh = Return (ps, raw, err)"
  shows "err =
     (case ghTree gh of
        Inl e \<Rightarrow> Some (FetchTree e)
      | Inr items \<Rightarrow>
          if candidates cfg items = [] then Some (NoMarkdownFound (ContentDir cfg))
          else if \<forall>p\<in>set (candidates cfg items).
                    post_of (content_prefix cfg) md (ghFile gh) p = None
               then Some NothingRendered
               else None)"
proof (cases "ghTree gh")
  case (Inl e)
  with fetchPosts_Return [OF assms] show ?thesis by simp
next
  case (Inr items)
  show ?thesis
  proof (cases "candidates cfg items = []")
    case True
    with Inr fetchPosts_Return [OF assms] show ?thesis by simp
  next
    case False
    with Inr fetchPosts_Return [OF assms] obtain out r where
      l: "fetch_loop (content_prefix cfg) md (ghFetchFile cfg gh)
            (sort (candidates cfg items)) ([], Map.empty) = Return (out, r)"
      and e: "if out = [] then ps = [] \<and> err = Some NothingRendered
              else ps = sort_posts out \<and> err = None"
      by auto
    from fetch_loop_posts [OF l]
    have "out = [] \<longleftrightarrow> (\<forall>p\<in>set (candidates cfg items).
        post_of (content_prefix cfg) md (ghFile gh) p = None)"
      by (simp add: map_filter_Nil_iff)
    with e Inr False show ?thesis by (auto split: if_splits)
  qed
qed

lemma fetchPosts_ok:
  assumes "fetchPosts cfg md gh = Return (ps, raw, None)"
  shows "\<exists>items. ghTree gh = Inr items \<and> ps \<noteq> [] \<and>
           ps = sort_posts (List.map_filter (post_of (content_prefix cfg) md (ghFile gh))
                  (sort (candidates cfg items)))"
proof (cases "ghTree gh")
  case (Inl e)
  with fetchPosts_Return [OF assms] show ?thesis by simp
next
  case (Inr items)
  with fetchPosts_Return [OF assms] obtain out where
    l: "fetch_loop (content_prefix cfg) md (ghFetchFile cfg gh)
          (sort (candidates cfg items)) ([], Map.empty) = Return (out, raw)"
    and e: "out \<noteq> []" "ps = sort_posts out"
    by (auto split: if_splits)
  from fetch_loop_posts [OF l] e Inr show ?thesis
    by (simp add: sort_posts_Nil)
qed

text \<open>The pass panics exactly when one of its requests cannot be built: the request for
  the listing, or the request for a candidate.\<close>

lemma fetchPosts_Panic:
  "fetchPosts cfg md gh = Panic \<longleftrightarrow>
     \<not> url_Parse_ok (treeURL cfg) \<or>
     (\<exists>items. ghTree gh = Inr items \<and>
        (\<exists>p\<in>set (candidates cfg items). \<not> url_Parse_ok (fileURL cfg p)))"
proof (cases "url_Parse_ok (treeURL cfg)")
  case False
  then show ?thesis by (simp add: fetchPosts_def ghGetJSON_def)
next
  case True
  show ?thesis
  proof (cases "ghTree gh")
    case (Inl e)
    with True show ?thesis by (simp add: fetchPosts_def ghGetJSON_def)
  next
    case (Inr items)
    show ?thesis
    proof (cases "candidates cfg items = []")
      case c: True
      with True Inr show ?thesis by (simp add: fetchPosts_def ghGetJSON_def)
    next
      case c: False
      have "fetch_loop (content_prefix cfg) md (ghFetchFile cfg gh)
              (sort (candidates cfg items)) ([], Map.empty) = Panic \<longleftrightarrow>
            (\<exists>p\<in>set (candidates cfg items). \<not> url_Parse_ok (fileURL cfg p))"
        by (simp add: fetch_loop_Panic)
      with True Inr c show ?thesis
        by (auto simp: fetchPosts_def ghGetJSON_def Let_def sort_Nil_iff
            split: outcome.splits prod.splits)
    qed
  qed
qed

text \<open>
  The program with the disk mirror keeps the rule: when its pass returns, its
  \<open>syncOnce\<close> stores the time and the error of the attempt, and replaces the post list
  and the slug index exactly when the pass returned no error and at least one post.
\<close>

lemma syncOnce_policy:
  assumes "fetchPosts cfg md gh = Return (ps, raw, err)"
  shows "\<exists>c' d'. syncOnce cfg md gh now gen (c, d) = Return ((c', d'), err)
           \<and> lastSync c' = now \<and> lastErr c' = err
           \<and> (if err = None \<and> ps \<noteq> []
              then posts c' = ps \<and> bySlug c' = index_posts Map.empty ps
              else posts c' = posts c \<and> bySlug c' = bySlug c)"
  using assms by (simp add: syncOnce_def Let_def)

lemma syncOnce_Panic:
  "syncOnce cfg md gh now gen st = Panic \<longleftrightarrow> fetchPosts cfg md gh = Panic"
  by (simp add: syncOnce_def Let_def split: outcome.splits prod.splits)

text \<open>The requests of the scenarios can be built.\<close>

lemma scenario_urls:
  "url_Parse_ok (treeURL scenario_cfg)"
  "url_Parse_ok (fileURL scenario_cfg ''data/a.md'')"
  "url_Parse_ok (fileURL scenario_cfg ''data/b.md'')"
  "url_Parse_ok (fileURL scenario_cfg ''data/foo-bar.md'')"
  "url_Parse_ok (fileURL scenario_cfg ''data/foo/bar.md'')"
  by (simp_all add: url_Parse_ok_def treeURL_def fileURL_def scenario_cfg_def
      stringContainsCTLByte_def Let_def)

lemma scenario_sorted:
  "sort (candidates scenario_cfg
      [\<lparr>Path = ''data/a.md'', Type = ''blob''\<rparr>, \<lparr>Path = ''data/b.md'', Type = ''blob''\<rparr>]) =
     [''data/a.md'', ''data/b.md'']"
  by (simp add: sync_eval str_eval scenario_cfg_def)

lemma scenario_prefix: "content_prefix scenario_cfg = ''data/''"
  by (simp add: sync_eval str_eval scenario_cfg_def)

lemma scenario_post:
  "post_slug ''data/'' ''data/b.md'' = ''b''"
  "post_title ''data/b.md'' ''# Hello\<newline>World'' = ''Hello''"
  "makeExcerpt ''# Hello\<newline>World'' 140 = ''Hello World''"
  by (simp_all add: sync_eval str_eval text_eval)

lemma scenario_fetch:
  assumes "md ''# Hello\<newline>World'' = Inr html"
  shows "fetchPosts scenario_cfg md scenario_remote =
      Return ([\<lparr>Slug = ''b'', Title = ''Hello'', Excerpt = ''Hello World'', HTML = html,
                SourcePath = ''data/b.md''\<rparr>], [''b'' \<mapsto> ''# Hello\<newline>World''], None)"
  using assms
  by (simp add: fetchPosts_def ghGetJSON_def ghFetchFile_def scenario_urls scenario_remote_def
      scenario_sorted scenario_prefix scenario_post sort_posts_def Let_def)

section \<open>Claims about the sync pass and the cache\<close>

text \<open>
  C1. After every call of \<open>syncOnce\<close> the cache holds the time and the error of the
  attempt, and the post list and the slug index are replaced only by a pass without
  error that produced a post; a pass with zero posts leaves the snapshot as it was.
  The program with the disk mirror does so (\<open>syncOnce_policy\<close>). The program
  without the mirror does not: when the listing is empty, its pass returns no posts and
  no error, and its \<open>syncOnce\<close> replaces whatever the cache held by the empty post
  list and the empty index. (The listing is read only when the request for it can be
  built from the owner, the repository and the branch; otherwise the call panics.)
\<close>

theorem syncOnce_nomirror_wipes_snapshot:
  "syncOnce_nomirror cfg md (gh\<lparr>ghTree := Inr []\<rparr>) now c =
     (if url_Parse_ok (treeURL cfg)
      then Return (\<lparr>posts = [], bySlug = Map.empty, lastSync = now, lastErr = None\<rparr>, None)
      else Panic)"
  by (simp add: syncOnce_nomirror_def fetchPosts_nomirror_def ghGetJSON_def candidates_def
      sort_posts_def)

text \<open>
  C2. \<open>fetchPosts\<close> is to return an error exactly when the listing fails, when there is
  no candidate, or when no candidate could be fetched and rendered, and to skip a file
  that cannot be fetched. When the pass returns it does so (\<open>fetchPosts_err\<close>). But
  a listed file whose name has a \<open>%\<close> that starts no escape sequence, such as
  \<open>data/100%.md\<close>, gives a URL for which no request can be built: the file is not
  skipped, the pass panics, whatever the converter and the other files are, and
  \<open>syncOnce\<close> with it.
\<close>

theorem fetchPosts_panics_on_percent_path:
  "fetchPosts scenario_cfg md
     \<lparr>ghTree = Inr [\<lparr>Path = ''data/100%.md'', Type = ''blob''\<rparr>,
                     \<lparr>Path = ''data/b.md'', Type = ''blob''\<rparr>],
      ghFile = bodies\<rparr> = Panic
   \<and> syncOnce scenario_cfg md
     \<lparr>ghTree = Inr [\<lparr>Path = ''data/100%.md'', Type = ''blob''\<rparr>,
                     \<lparr>Path = ''data/b.md'', Type = ''blob''\<rparr>],
      ghFile = bodies\<rparr> now gen st = Panic"
proof -
  have c: "candidates scenario_cfg
      [\<lparr>Path = ''data/100%.md'', Type = ''blob''\<rparr>, \<lparr>Path = ''data/b.md'', Type = ''blob''\<rparr>] =
     [''data/100%.md'', ''data/b.md'']"
    by (simp add: sync_eval str_eval scenario_cfg_def)
  have u: "\<not> url_Parse_ok (fileURL scenario_cfg ''data/100%.md'')"
    by (simp add: url_Parse_ok_def fileURL_def scenario_cfg_def stringContainsCTLByte_def
        ishex_def str_eval Let_def)
  have "fetchPosts scenario_cfg md
     \<lparr>ghTree = Inr [\<lparr>Path = ''data/100%.md'', Type = ''blob''\<rparr>,
                     \<lparr>Path = ''data/b.md'', Type = ''blob''\<rparr>],
      ghFile = bodies\<rparr> = Panic"
    unfolding fetchPosts_Panic using c u by simp
  then show ?thesis by (simp add: syncOnce_Panic)
qed

text \<open>
  C3. In the scenario of the specification the snapshot has exactly one post, with slug
  \<open>b\<close> and title \<open>Hello\<close>. Its excerpt is \<open>Hello World\<close> and not \<open>World\<close>:
  \<open>makeExcerpt\<close> deletes the heading marker, not the heading line.
\<close>

theorem scenario_snapshot:
  assumes "md ''# Hello\<newline>World'' = Inr html"
  shows "fetchPosts scenario_cfg md scenario_remote =
           Return ([\<lparr>Slug = ''b'', Title = ''Hello'', Excerpt = ''Hello World'', HTML = html,
                     SourcePath = ''data/b.md''\<rparr>], [''b'' \<mapsto> ''# Hello\<newline>World''], None)
         \<and> (\<exists>c' d'. syncOnce scenario_cfg md scenario_remote now gen (c, d) =
                       Return ((c', d'), None)
              \<and> posts c' =
                  [\<lparr>Slug = ''b'', Title = ''Hello'', Excerpt = ''Hello World'', HTML = html,
                    SourcePath = ''data/b.md''\<rparr>])"
  using scenario_fetch [of md html] assms by (simp add: syncOnce_def)

theorem scenario_snapshot_witness:
  "fetchPosts scenario_cfg (\<lambda>b. Inr ''<h1>Hello</h1><p>World</p>'') scenario_remote =
     Return ([\<lparr>Slug = ''b'', Title = ''Hello'', Excerpt = ''Hello World'',
               HTML = ''<h1>Hello</h1><p>World</p>'', SourcePath = ''data/b.md''\<rparr>],
             [''b'' \<mapsto> ''# Hello\<newline>World''], None)"
  using scenario_snapshot [of "\<lambda>b. Inr ''<h1>Hello</h1><p>World</p>''" "''<h1>Hello</h1><p>World</p>''" 0 0 new_cache empty_disk]
  by simp

theorem scenario_excerpt_counterexample:
  "fetchPosts scenario_cfg Inr scenario_remote =
     Return ([\<lparr>Slug = ''b'', Title = ''Hello'', Excerpt = ''Hello World'',
               HTML = ''# Hello\<newline>World'', SourcePath = ''data/b.md''\<rparr>],
             [''b'' \<mapsto> ''# Hello\<newline>World''], None)
   \<and> ''Hello World'' \<noteq> ''World''"
  by (simp add: scenario_fetch)

text \<open>
  C8. After a pass without error the post list of the cache is the list the pass
  returned: it is ordered by source path, descending, and it holds every post that was
  produced, also those with the same slug; the slug index maps a slug to the last post
  of the list that has it.
\<close>

theorem snapshot_sorted_and_indexed:
  assumes "fetchPosts cfg md gh = Return (ps, raw, None)"
  shows "\<exists>c' d'. syncOnce cfg md gh now gen (c, d) = Return ((c', d'), None)
           \<and> posts c' = ps
           \<and> sorted_wrt (\<lambda>a b. SourcePath a \<ge> SourcePath b) ps
           \<and> (\<exists>items. ghTree gh = Inr items \<and>
                 mset ps = mset (List.map_filter
                   (post_of (content_prefix cfg) md (ghFile gh)) (candidates cfg items)))
           \<and> (\<forall>s. bySlug c' s =
                 (case filter (\<lambda>p. Slug p = s) ps of
                    [] \<Rightarrow> None
                  | x # xs \<Rightarrow> Some (last (x # xs))))"
proof -
  from fetchPosts_ok [OF assms] obtain items where i: "ghTree gh = Inr items" "ps \<noteq> []"
    "ps = sort_posts (List.map_filter (post_of (content_prefix cfg) md (ghFile gh))
                  (sort (candidates cfg items)))"
    by blast
  from syncOnce_policy [OF assms, of now gen c d] i(2) obtain c' d' where
    s: "syncOnce cfg md gh now gen (c, d) = Return ((c', d'), None)"
       "posts c' = ps" "bySlug c' = index_posts Map.empty ps"
    by auto
  have 3: "sorted_wrt (\<lambda>a b. SourcePath a \<ge> SourcePath b) ps"
    using i(3) sorted_sort_posts by simp
  have 4: "mset ps = mset (List.map_filter
                     (post_of (content_prefix cfg) md (ghFile gh)) (candidates cfg items))"
    using i(3) by (simp add: mset_sort_posts mset_map_filter_sort)
  show ?thesis
    using s 3 4 i(1) by (simp add: index_posts_lookup)
qed

lemma collision_fetch:
  "\<exists>p1 p2 raw. fetchPosts scenario_cfg Inr collision_remote = Return ([p1, p2], raw, None)
     \<and> Slug p1 = ''foo-bar'' \<and> SourcePath p1 = ''data/foo/bar.md''
     \<and> Slug p2 = ''foo-bar'' \<and> SourcePath p2 = ''data/foo-bar.md''"
  by (simp add: fetchPosts_def ghGetJSON_def ghFetchFile_def scenario_urls
      collision_remote_def candidates_def is_candidate_def scenario_prefix post_slug_def
      sort_posts_def str_eval Let_def)

theorem snapshot_sorted_and_indexed_witness:
  "\<exists>c' d'. syncOnce scenario_cfg Inr collision_remote 7 8 (new_cache, empty_disk) =
       Return ((c', d'), None)
     \<and> map SourcePath (posts c') = [''data/foo/bar.md'', ''data/foo-bar.md'']
     \<and> map Slug (posts c') = [''foo-bar'', ''foo-bar'']
     \<and> map_option SourcePath (bySlug c' ''foo-bar'') = Some ''data/foo-bar.md''"
proof -
  from collision_fetch obtain p1 p2 raw where
    f: "fetchPosts scenario_cfg Inr collision_remote = Return ([p1, p2], raw, None)"
    and q: "Slug p1 = ''foo-bar''" "SourcePath p1 = ''data/foo/bar.md''"
       "Slug p2 = ''foo-bar''" "SourcePath p2 = ''data/foo-bar.md''"
    by blast
  from snapshot_sorted_and_indexed [OF f, of 7 8 new_cache empty_disk] obtain c' d' where
    s: "syncOnce scenario_cfg Inr collision_remote 7 8 (new_cache, empty_disk) =
          Return ((c', d'), None)"
    and p: "posts c' = [p1, p2]"
    and i: "\<forall>s. bySlug c' s =
              (case filter (\<lambda>p. Slug p = s) [p1, p2] of
                 [] \<Rightarrow> None
               | x # xs \<Rightarrow> Some (last (x # xs)))"
    by blast
  from i q have "bySlug c' ''foo-bar'' = Some p2" by simp
  with s p q show ?thesis by simp
qed

text \<open>
  C10. The block of \<open>main\<close> that loads the disk mirror fills the post list and the slug
  index only when \<open>loadPostsFromDisk\<close> returns no error and at least one post; in every
  case \<open>lastSync\<close> is still the zero time and \<open>lastErr\<close> is still \<open>nil\<close>.
\<close>

theorem main_load_policy:
  "lastSync (main_load cfg md d) = 0 \<and> lastErr (main_load cfg md d) = None \<and>
   (case loadPostsFromDisk cfg md d of
      (ps, e) \<Rightarrow>
        if e = None \<and> ps \<noteq> []
        then posts (main_load cfg md d) = ps \<and> bySlug (main_load cfg md d) = index_posts Map.empty ps
        else posts (main_load cfg md d) = [] \<and> bySlug (main_load cfg md d) = Map.empty)"
  by (cases "loadPostsFromDisk cfg md d") (simp add: main_load_def new_cache_def)

section \<open>Claims about the slug\<close>

lemma set_dropWhile_subset: "set (dropWhile P xs) \<subseteq> set xs"
  by (auto dest: set_dropWhileD)

lemma set_Trim: "set (Trim t c) \<subseteq> set t"
proof -
  have "set (Trim t c) \<subseteq> set (rev (dropWhile (\<lambda>x. x = c) t))"
    unfolding Trim_def set_rev [of "dropWhile (\<lambda>x. x = c) (rev (dropWhile (\<lambda>x. x = c) t))"]
    by (rule set_dropWhile_subset)
  also have "\<dots> \<subseteq> set t"
    unfolding set_rev by (rule set_dropWhile_subset)
  finally show ?thesis .
qed

lemma lower_byte_upper: "is_upper c \<Longrightarrow> is_lower (lower_byte c)"
  by (auto simp: is_upper_def is_lower_def lower_byte_def less_eq_char_def)

lemma slugify_charset_aux:
  "\<not> slug_bad c \<Longrightarrow> 
     is_lower (lower_byte (if c = CHR ''/'' then CHR ''-'' else c)) \<or> 
     is_digit (lower_byte (if c = CHR ''/'' then CHR ''-'' else c)) \<or> 
     lower_byte (if c = CHR ''/'' then CHR ''-'' else c) = CHR ''-''"
  using lower_byte_upper [of c]
  by (auto simp: slug_bad_def lower_byte_def is_upper_def less_eq_char_def)

lemma slugify_charset: "c \<in> set (slugify s) \<Longrightarrow> is_lower c \<or> is_digit c \<or> c = CHR ''-''"
proof -
  assume c: "c \<in> set (slugify s)"
  define s4 where "s4 = reSlugBad_delete (ReplaceAll (ReplaceAll (Trim (ReplaceAll s (CHR 0x5C) (CHR ''/'')) (CHR ''/'')) (CHR '' '') (CHR ''-'')) (CHR ''_'') (CHR ''-''))"
  show ?thesis
  proof (cases "ReplaceAll (Trim s4 (CHR ''-'')) (CHR ''/'') (CHR ''-'') = []")
    case True
    with c have "c \<in> set ''post''" by (simp add: slugify_def Let_def s4_def)
    then show ?thesis by (auto simp: is_lower_def less_eq_char_def)
  next
    case False
    with c have "c \<in> set (ToLower (ReplaceAll (Trim s4 (CHR ''-'')) (CHR ''/'') (CHR ''-'')))"
      by (simp add: slugify_def Let_def s4_def)
    then obtain x where x: "x \<in> set (Trim s4 (CHR ''-''))" 
      and cx: "c = lower_byte (if x = CHR ''/'' then CHR ''-'' else x)"
      by (auto simp: ToLower_def ReplaceAll_def)
    from x set_Trim have "x \<in> set s4" by blast
    then have "\<not> slug_bad x" by (simp add: s4_def reSlugBad_delete_def)
    from slugify_charset_aux [OF this] cx show ?thesis by simp
  qed
qed

lemma slug_pipeline_chars:
  "ToLower (ReplaceAll (reSlugBad_delete (ReplaceAll (ReplaceAll (ReplaceAll s (CHR 0x5C) (CHR ''/'')) (CHR '' '') (CHR ''-'')) (CHR ''_'') (CHR ''-''))) (CHR ''/'') (CHR ''-''))
   = concat (map slug_char s)"
  by (induction s)
     (auto simp: ToLower_def ReplaceAll_def reSlugBad_delete_def slug_char_def slug_bad_def
        is_alnum_def is_lower_def is_upper_def is_digit_def lower_byte_def less_eq_char_def)


lemma alnum_facts:
  "is_alnum c \<Longrightarrow> c \<noteq> CHR 0x5C \<and> c \<noteq> CHR ''/'' \<and> c \<noteq> CHR '' '' \<and> c \<noteq> CHR ''_''
     \<and> c \<noteq> CHR ''-'' \<and> \<not> slug_bad c"
  by (auto simp: is_alnum_def slug_bad_def is_lower_def is_upper_def is_digit_def
      less_eq_char_def)

lemma hd_filter_keep: "xs \<noteq> [] \<Longrightarrow> P (hd xs) \<Longrightarrow> hd (filter P xs) = hd xs"
  by (cases xs) auto

lemma last_filter_keep:
  assumes "xs \<noteq> []" and "P (last xs)"
  shows "last (filter P xs) = last xs"
proof -
  from assms(1) have "xs = butlast xs @ [last xs]" by simp
  then have "filter P xs = filter P (butlast xs) @ filter P [last xs]"
    by (metis filter_append)
  with assms(2) show ?thesis by simp
qed

lemma filter_keep_nonempty: "xs \<noteq> [] \<Longrightarrow> P (hd xs) \<Longrightarrow> filter P xs \<noteq> []"
  by (cases xs) auto

lemma Trim_sandwich:
  assumes "\<forall>x\<in>set a. x = c" "\<forall>x\<in>set b. x = c" "m = [] \<or> (hd m \<noteq> c \<and> last m \<noteq> c)"
  shows "Trim (a @ m @ b) c = m"
proof -
  have 1: "dropWhile (\<lambda>x. x = c) (a @ m @ b) = dropWhile (\<lambda>x. x = c) (m @ b)"
    using assms(1) by (intro dropWhile_append2) simp
  show ?thesis
  proof (cases "m = []")
    case True
    with assms(1,2) show ?thesis
      by (auto simp: Trim_def dest!: set_dropWhileD)
  next
    case False
    with assms(3) have h: "hd m \<noteq> c" and l: "last m \<noteq> c" by auto
    from False h have 2: "dropWhile (\<lambda>x. x = c) (m @ b) = m @ b"
      by (cases m) auto
    have 3: "dropWhile (\<lambda>x. x = c) (rev b @ rev m) = dropWhile (\<lambda>x. x = c) (rev m)"
      using assms(2) by (intro dropWhile_append2) simp
    from False have "m = butlast m @ [last m]" by simp
    then have r: "rev m = last m # rev (butlast m)"
      by (metis rev.simps(2) rev_swap)
    have 4: "dropWhile (\<lambda>x. x = c) (rev m) = rev m"
      unfolding r using l by simp
    show ?thesis
      unfolding Trim_def 1 2 rev_append 3 4 by simp
  qed
qed

lemma ends_append3:
  assumes "\<forall>x\<in>set b. Q x" "k = [] \<or> (Q (hd k) \<and> Q (last k))" "\<forall>x\<in>set b'. Q x"
  shows "b @ k @ b' = [] \<or> (Q (hd (b @ k @ b')) \<and> Q (last (b @ k @ b')))"
proof (cases "b @ k @ b' = []")
  case True
  then show ?thesis by simp
next
  case False
  have h: "Q (hd (b @ k @ b'))"
  proof (cases "b = []")
    case bn: False
    then have "hd (b @ k @ b') = hd b" by simp
    with bn assms(1) show ?thesis by (metis hd_in_set)
  next
    case bn: True
    show ?thesis
    proof (cases "k = []")
      case kn: False
      with bn assms(2) show ?thesis by simp
    next
      case kn: True
      with bn False have "b' \<noteq> []" by simp
      with bn kn assms(3) show ?thesis by (simp add: hd_in_set)
    qed
  qed
  have l: "Q (last (b @ k @ b'))"
  proof (cases "b' = []")
    case bn: False
    then have "last (b @ k @ b') = last b'" by simp
    with bn assms(3) show ?thesis by (metis last_in_set)
  next
    case bn: True
    show ?thesis
    proof (cases "k = []")
      case kn: False
      with bn assms(2) show ?thesis by simp
    next
      case kn: True
      with bn False have "b \<noteq> []" by simp
      with bn kn assms(1) show ?thesis by (simp add: last_in_set)
    qed
  qed
  from h l show ?thesis by simp
qed

lemma slash_facts: "is_slash c \<Longrightarrow> \<not> is_alnum c \<and> slug_char c = ''-''"
  by (auto simp: is_slash_def slug_char_def dest: alnum_facts)

lemma lower_alnum: "is_alnum c \<Longrightarrow> lower_byte c \<noteq> CHR ''-''"
proof (cases "is_upper c")
  case True
  from lower_byte_upper [OF True] show ?thesis
    by (auto simp: is_lower_def less_eq_char_def)
next
  case False
  assume "is_alnum c"
  with False alnum_facts [of c] show ?thesis by (simp add: lower_byte_def)
qed

lemma slug_chars_hyphens:
  assumes "\<forall>c\<in>set s. \<not> is_alnum c"
  shows "\<forall>x\<in>set (concat (map slug_char s)). x = CHR ''-''"
  using assms by (auto simp: slug_char_def split: if_splits)

lemma slug_chars_core:
  assumes "k \<noteq> []" "is_alnum (hd k)" "is_alnum (last k)"
  shows "concat (map slug_char k) \<noteq> []
         \<and> hd (concat (map slug_char k)) \<noteq> CHR ''-''
         \<and> last (concat (map slug_char k)) \<noteq> CHR ''-''"
proof -
  from assms(1) obtain x xs where x: "k = x # xs" by (cases k) auto
  with assms(2) have sx: "slug_char x = [lower_byte x]"
    using alnum_facts [of x] by (simp add: slug_char_def)
  from assms(1) have y: "k = butlast k @ [last k]" by simp
  from assms(3) have sy: "slug_char (last k) = [lower_byte (last k)]"
    using alnum_facts [of "last k"] by (simp add: slug_char_def)
  have c1: "concat (map slug_char k) = lower_byte x # concat (map slug_char xs)"
    using x sx by simp
  have "concat (map slug_char k) =
      concat (map slug_char (butlast k)) @ concat (map slug_char [last k])"
    by (metis y concat_append map_append)
  then have c2: "concat (map slug_char k) =
      concat (map slug_char (butlast k)) @ [lower_byte (last k)]"
    using sy by simp
  from c1 have "concat (map slug_char k) \<noteq> []" by simp
  moreover from c1 x assms(2) have "hd (concat (map slug_char k)) \<noteq> CHR ''-''"
    using lower_alnum [of x] by simp
  moreover from c2 assms(3) have "last (concat (map slug_char k)) \<noteq> CHR ''-''"
    using lower_alnum [of "last k"] by simp
  ultimately show ?thesis by simp
qed

lemma slug_spec_parts:
  assumes "\<forall>c\<in>set a. \<not> is_alnum c" "k = [] \<or> (is_alnum (hd k) \<and> is_alnum (last k))"
    "\<forall>c\<in>set a'. \<not> is_alnum c"
  shows "slug_spec (a @ k @ a') = (if k = [] then ''post'' else concat (map slug_char k))"
proof -
  have m: "concat (map slug_char k) = [] \<or>
      (hd (concat (map slug_char k)) \<noteq> CHR ''-'' \<and> last (concat (map slug_char k)) \<noteq> CHR ''-'')"
    using assms(2) slug_chars_core [of k] by (cases "k = []") auto
  have "Trim (concat (map slug_char a) @ concat (map slug_char k) @ concat (map slug_char a'))
          (CHR ''-'') = concat (map slug_char k)"
    using slug_chars_hyphens [OF assms(1)] slug_chars_hyphens [OF assms(3)] m
    by (intro Trim_sandwich) auto
  then have "Trim (concat (map slug_char (a @ k @ a'))) (CHR ''-'') = concat (map slug_char k)"
    by simp
  moreover have "concat (map slug_char k) = [] \<longleftrightarrow> k = []"
    using assms(2) slug_chars_core [of k] by (cases "k = []") auto
  ultimately show ?thesis
    by (simp add: slug_spec_def Let_def)
qed

lemma mem_dropWhile: "x \<in> set xs \<Longrightarrow> \<not> P x \<Longrightarrow> x \<in> set (dropWhile P xs)"
  by (induction xs) auto

lemma map_ends:
  assumes "X = [] \<or> (Q (hd X) \<and> Q (last X))" and "\<And>x. Q x \<Longrightarrow> Q' (f x)"
  shows "map f X = [] \<or> (Q' (hd (map f X)) \<and> Q' (last (map f X)))"
  using assms by (cases "X = []") (auto simp: hd_map last_map)

lemma slug_core_keep:
  assumes "k \<noteq> []" "is_alnum (hd k)" "is_alnum (last k)"
  defines "m \<equiv> ReplaceAll (ReplaceAll (ReplaceAll k (CHR 0x5C) (CHR ''/'')) (CHR '' '') (CHR ''-''))
                  (CHR ''_'') (CHR ''-'')"
  shows "reSlugBad_delete m \<noteq> [] \<and> hd (reSlugBad_delete m) = hd k
         \<and> last (reSlugBad_delete m) = last k"
proof -
  have ne: "m \<noteq> []" using assms(1) by (simp add: m_def ReplaceAll_def)
  have hm: "hd m = hd k" and lm: "last m = last k"
    using assms(1) alnum_facts [OF assms(2)] alnum_facts [OF assms(3)]
    by (simp_all add: m_def ReplaceAll_def hd_map last_map)
  have "reSlugBad_delete m \<noteq> []"
    unfolding reSlugBad_delete_def
    using ne hm alnum_facts [OF assms(2)] by (intro filter_keep_nonempty) simp_all
  moreover have "hd (reSlugBad_delete m) = hd k"
    unfolding reSlugBad_delete_def
    using ne hm alnum_facts [OF assms(2)] by (simp add: hd_filter_keep)
  moreover have "last (reSlugBad_delete m) = last k"
    unfolding reSlugBad_delete_def
    using ne lm alnum_facts [OF assms(3)] by (simp add: last_filter_keep)
  ultimately show ?thesis by simp
qed

lemma slugify_parts:
  assumes a: "\<forall>c\<in>set a. is_slash c"
    and b: "\<forall>c\<in>set b. \<not> is_alnum c \<and> \<not> is_slash c"
    and k: "k = [] \<or> (is_alnum (hd k) \<and> is_alnum (last k))"
    and b': "\<forall>c\<in>set b'. \<not> is_alnum c \<and> \<not> is_slash c"
    and a': "\<forall>c\<in>set a'. is_slash c"
  shows "slugify (a @ b @ k @ b' @ a') =
           (if k = [] then ''post'' else concat (map slug_char k))"
proof -
  define bs where "bs = (\<lambda>x. ReplaceAll x (CHR 0x5C) (CHR ''/''))"
  define P where "P = (\<lambda>x. reSlugBad_delete
      (ReplaceAll (ReplaceAll x (CHR '' '') (CHR ''-'')) (CHR ''_'') (CHR ''-'')))"
  have bs_app: "bs (x @ y) = bs x @ bs y" for x y
    by (simp add: bs_def ReplaceAll_def)
  have P_app: "P (x @ y) = P x @ P y" for x y
    by (simp add: P_def ReplaceAll_def reSlugBad_delete_def)
  have sl: "slugify s =
      (if ReplaceAll (Trim (P (Trim (bs s) (CHR ''/''))) (CHR ''-'')) (CHR ''/'') (CHR ''-'') = []
       then ''post''
       else ToLower (ReplaceAll (Trim (P (Trim (bs s) (CHR ''/''))) (CHR ''-''))
                       (CHR ''/'') (CHR ''-'')))" for s
    by (simp add: slugify_def bs_def P_def Let_def)
  have sa: "\<forall>x\<in>set (bs a). x = CHR ''/''" and sa': "\<forall>x\<in>set (bs a'). x = CHR ''/''"
    using a a' by (auto simp: bs_def ReplaceAll_def is_slash_def)
  have ns: "\<not> is_slash x \<Longrightarrow> (if x = CHR 0x5C then CHR ''/'' else x) \<noteq> CHR ''/''" for x
    by (auto simp: is_slash_def)
  have "b @ k @ b' = [] \<or>
      (\<not> is_slash (hd (b @ k @ b')) \<and> \<not> is_slash (last (b @ k @ b')))"
    using b k b' slash_facts by (intro ends_append3) auto
  then have mid: "bs (b @ k @ b') = [] \<or>
      (hd (bs (b @ k @ b')) \<noteq> CHR ''/'' \<and> last (bs (b @ k @ b')) \<noteq> CHR ''/'')"
    unfolding bs_def ReplaceAll_def using ns by (rule map_ends)
  have "bs (a @ b @ k @ b' @ a') = bs a @ bs (b @ k @ b') @ bs a'"
    by (simp add: bs_app)
  then have t1: "Trim (bs (a @ b @ k @ b' @ a')) (CHR ''/'') = bs (b @ k @ b')"
    using Trim_sandwich [OF sa sa' mid] by simp
  have jb: "\<forall>x\<in>set (P (bs b)). x = CHR ''-''" and jb': "\<forall>x\<in>set (P (bs b')). x = CHR ''-''"
    using b b'
    by (auto simp: P_def bs_def ReplaceAll_def reSlugBad_delete_def slug_bad_def is_alnum_def
        is_slash_def split: if_splits)
  have core: "P (bs k) = [] \<or> (hd (P (bs k)) \<noteq> CHR ''-'' \<and> last (P (bs k)) \<noteq> CHR ''-'')"
  proof (cases "k = []")
    case True
    then show ?thesis by (simp add: P_def bs_def ReplaceAll_def reSlugBad_delete_def)
  next
    case False
    with k have h: "is_alnum (hd k)" and l: "is_alnum (last k)" by auto
    from slug_core_keep [OF False h l] alnum_facts [OF h] alnum_facts [OF l]
    show ?thesis by (simp add: P_def bs_def)
  qed
  have ne: "P (bs k) = [] \<longleftrightarrow> k = []"
  proof (cases "k = []")
    case True
    then show ?thesis by (simp add: P_def bs_def ReplaceAll_def reSlugBad_delete_def)
  next
    case False
    with k have h: "is_alnum (hd k)" and l: "is_alnum (last k)" by auto
    from slug_core_keep [OF False h l] False show ?thesis by (simp add: P_def bs_def)
  qed
  have "P (bs (b @ k @ b')) = P (bs b) @ P (bs k) @ P (bs b')"
    by (simp add: bs_app P_app)
  then have t2: "Trim (P (bs (b @ k @ b'))) (CHR ''-'') = P (bs k)"
    using Trim_sandwich [OF jb jb' core] by simp
  have pc: "ToLower (ReplaceAll (P (bs k)) (CHR ''/'') (CHR ''-'')) = concat (map slug_char k)"
    unfolding P_def bs_def by (rule slug_pipeline_chars)
  have "slugify (a @ b @ k @ b' @ a') =
      (if ReplaceAll (P (bs k)) (CHR ''/'') (CHR ''-'') = [] then ''post''
       else ToLower (ReplaceAll (P (bs k)) (CHR ''/'') (CHR ''-'')))"
    unfolding sl t1 t2 ..
  moreover have "ReplaceAll (P (bs k)) (CHR ''/'') (CHR ''-'') = [] \<longleftrightarrow> k = []"
    using ne by (simp add: ReplaceAll_def)
  ultimately show ?thesis using pc by simp
qed

lemma ends_clean_parts:
  assumes "ends_clean s"
  obtains a b k b' a' where "s = a @ b @ k @ b' @ a'"
    "\<forall>c\<in>set a. is_slash c" "\<forall>c\<in>set b. \<not> is_alnum c \<and> \<not> is_slash c"
    "k = [] \<or> (is_alnum (hd k) \<and> is_alnum (last k))"
    "\<forall>c\<in>set b'. \<not> is_alnum c \<and> \<not> is_slash c" "\<forall>c\<in>set a'. is_slash c"
proof -
  define J where "J = (\<lambda>c. \<not> is_alnum c \<and> \<not> is_slash c)"
  define a where "a = takeWhile is_slash s"
  define b where "b = takeWhile J (dropWhile is_slash s)"
  define T where "T = dropWhile J (dropWhile is_slash s)"
  have s: "s = a @ b @ T"
    by (simp add: a_def b_def T_def)
  have iT: "inner s = T" by (simp add: inner_def T_def J_def)
  have sa: "\<forall>c\<in>set a. is_slash c" unfolding a_def by (auto dest: set_takeWhileD)
  have sb: "\<forall>c\<in>set b. \<not> is_alnum c \<and> \<not> is_slash c"
    unfolding b_def using J_def by (auto dest: set_takeWhileD)
  show ?thesis
  proof (cases "T = []")
    case True
    with s have "s = a @ b @ [] @ [] @ []" by simp
    from that [OF this sa sb] show ?thesis by simp
  next
    case False
    with assms iT have hT: "is_alnum (hd T)" by (simp add: ends_clean_def)
    define R where "R = rev T"
    define a2 where "a2 = takeWhile is_slash R"
    define b2 where "b2 = takeWhile J (dropWhile is_slash R)"
    define K where "K = dropWhile J (dropWhile is_slash R)"
    have R: "R = a2 @ b2 @ K" by (simp add: a2_def b2_def K_def)
    then have "rev R = rev K @ rev b2 @ rev a2" by simp
    then have T: "T = rev K @ rev b2 @ rev a2" by (simp add: R_def)
    have x: "hd T \<in> set R" using False by (simp add: R_def)
    have nsx: "\<not> is_slash (hd T)" using hT slash_facts by blast
    have nJx: "\<not> J (hd T)" using hT by (simp add: J_def)
    from x nsx have x1: "hd T \<in> set (dropWhile is_slash R)" by (rule mem_dropWhile)
    from x1 nJx have "hd T \<in> set (dropWhile J (dropWhile is_slash R))"
      by (rule mem_dropWhile)
    then have xK: "hd T \<in> set K" by (simp add: K_def)
    then have Kne: "K \<noteq> []" by auto
    have "rev s = R @ rev b @ rev a" using s by (simp add: R_def)
    moreover from x nsx
    have "dropWhile is_slash (R @ rev b @ rev a) = dropWhile is_slash R @ rev b @ rev a"
      by (rule dropWhile_append1)
    ultimately have "dropWhile is_slash (rev s) = dropWhile is_slash R @ rev b @ rev a"
      by simp
    moreover from x1 nJx
    have "dropWhile J (dropWhile is_slash R @ rev b @ rev a) =
        dropWhile J (dropWhile is_slash R) @ rev b @ rev a"
      by (rule dropWhile_append1)
    ultimately have "dropWhile J (dropWhile is_slash (rev s)) = K @ rev b @ rev a"
      by (simp add: K_def)
    then have "inner (rev s) = K @ rev b @ rev a" by (simp add: inner_def J_def)
    with assms Kne have hK: "is_alnum (hd K)" by (simp add: ends_clean_def)
    from Kne T have "hd T = hd (rev K)" by simp
    with hT hK Kne have kk: "rev K = [] \<or> (is_alnum (hd (rev K)) \<and> is_alnum (last (rev K)))"
      by (simp add: last_rev)
    have sa2: "\<forall>c\<in>set (rev a2). is_slash c" unfolding a2_def by (auto dest: set_takeWhileD)
    have sb2: "\<forall>c\<in>set (rev b2). \<not> is_alnum c \<and> \<not> is_slash c"
      unfolding b2_def using J_def by (auto dest: set_takeWhileD)
    from s T have "s = a @ b @ rev K @ rev b2 @ rev a2" by simp
    from that [OF this sa sb kk sb2 sa2] show ?thesis .
  qed
qed

lemma slugify_ends_clean:
  assumes "ends_clean s"
  shows "slugify s = slug_spec s"
proof -
  from ends_clean_parts [OF assms] obtain a b k b' a' where
    s: "s = a @ b @ k @ b' @ a'"
    and p: "\<forall>c\<in>set a. is_slash c" "\<forall>c\<in>set b. \<not> is_alnum c \<and> \<not> is_slash c"
      "k = [] \<or> (is_alnum (hd k) \<and> is_alnum (last k))"
      "\<forall>c\<in>set b'. \<not> is_alnum c \<and> \<not> is_slash c" "\<forall>c\<in>set a'. is_slash c"
    by blast
  have 1: "\<forall>c\<in>set (a @ b). \<not> is_alnum c" using p(1,2) slash_facts by auto
  have 2: "\<forall>c\<in>set (b' @ a'). \<not> is_alnum c" using p(4,5) slash_facts by auto
  have "slug_spec ((a @ b) @ k @ (b' @ a')) =
      (if k = [] then ''post'' else concat (map slug_char k))"
    using 1 p(3) 2 by (rule slug_spec_parts)
  with slugify_parts [OF p] s show ?thesis by simp
qed

text \<open>
  C4. For a path made of the content prefix, a rest and the extension \<open>.md\<close>, the slug
  is the rest in lower case, with each path separator, each space and each underscore
  turned into one separator \<open>-\<close> (a run of them is not collapsed), the disallowed
  characters stripped (a tab too), the separators at the two ends trimmed, and \<open>post\<close>
  when nothing is left. This holds for the rests with clean ends; the other rests, and
  an extension that is not in lower case, are left open.
\<close>

theorem slug_derivation:
  assumes "ends_clean rel"
  shows "post_slug prefix (prefix @ rel @ ''.md'') = slug_spec rel"
proof -
  have "TrimSuffix (TrimPrefix (prefix @ rel @ ''.md'') prefix) ''.md'' = rel"
    by (simp add: TrimPrefix_def TrimSuffix_def HasPrefix_def HasSuffix_def)
  with slugify_ends_clean [OF assms] show ?thesis by (simp add: post_slug_def)
qed

theorem slug_derivation_witness:
  "post_slug ''data/'' ''data/_My  Post/b_c.x_.md'' = ''my--post-b-cx''
   \<and> post_slug ''data/'' ''data//Foo/.md'' = ''foo''
   \<and> post_slug ''data/'' ''data/__.md'' = ''post''"
proof -
  have e: "ends_clean ''_My  Post/b_c.x_''" "ends_clean ''/Foo/''" "ends_clean ''__''"
    by (simp_all add: ends_clean_def inner_def is_slash_def is_alnum_def str_eval)
  have v: "slug_spec ''_My  Post/b_c.x_'' = ''my--post-b-cx''" "slug_spec ''/Foo/'' = ''foo''"
    "slug_spec ''__'' = ''post''"
    by (simp_all add: slug_spec_def slug_char_def is_alnum_def str_eval)
  from slug_derivation [OF e(1), of "''data/''"] slug_derivation [OF e(2), of "''data/''"]
    slug_derivation [OF e(3), of "''data/''"] v
  show ?thesis by simp
qed

theorem slug_runs_counterexample:
  "post_slug ''data/'' ''data/a  b.md'' = ''a--b''
   \<and> post_slug ''data/'' (''data/a'' @ [CHR 0x09] @ ''b.md'') = ''ab''"
  by (simp add: post_slug_def str_eval)

text \<open>
  C5. \<open>slugify\<close> is a function, so the same path always has the same slug. It is not
  idempotent: the hyphens are trimmed before the slashes become hyphens, so a path
  whose first directory has no character that survives yields a slug that begins with
  \<open>-\<close>, which a second run trims.
\<close>

theorem slugify_not_idempotent:
  "slugify ''_/a'' = ''-a'' \<and> slugify (slugify ''_/a'') = ''a''
   \<and> slugify ([CHR 0xE7, CHR 0xAC, CHR 0x94, CHR 0xE8, CHR 0xAE, CHR 0xB0] @ ''/go'') = ''-go''
   \<and> slugify ''-go'' = ''go''"
  by (simp add: str_eval)

section \<open>UTF-8: decoding what was encoded\<close>

lemma dec1: "k < 128 \<Longrightarrow> DecodeRune (char_of k # rest) = (k, 1)"
  by simp

lemma mod_shift: "m < c \<Longrightarrow> (c * q + m) mod c = (m::nat)"
  by simp

lemma dec2:
  assumes "2 \<le> k" "k < 32" "m < 64"
  shows "DecodeRune (char_of (192 + k) # char_of (128 + m) # rest) = (k * 64 + m, 2)"
proof -
  have a: "(192 + k) mod 256 = 192 + k" "(128 + m) mod 256 = 128 + m"
    using assms by simp_all
  have b: "(192 + k) mod 32 = k" "(128 + m) mod 64 = m"
    using assms mod_shift [of k 32 6] mod_shift [of m 64 2] by simp_all
  show ?thesis
    using assms by (simp add: a b Let_def)
qed

lemma dec3:
  assumes "k < 16" "m1 < 64" "m2 < 64" "k = 0 \<longrightarrow> 32 \<le> m1" "k = 13 \<longrightarrow> m1 < 32"
  shows "DecodeRune (char_of (224 + k) # char_of (128 + m1) # char_of (128 + m2) # rest) =
           (k * 4096 + m1 * 64 + m2, 3)"
proof -
  have a: "(224 + k) mod 256 = 224 + k" "(128 + m1) mod 256 = 128 + m1"
    "(128 + m2) mod 256 = 128 + m2"
    using assms by simp_all
  have b: "(224 + k) mod 16 = k" "(128 + m1) mod 64 = m1" "(128 + m2) mod 64 = m2"
    using assms mod_shift [of k 16 14] mod_shift [of m1 64 2] mod_shift [of m2 64 2]
    by simp_all
  show ?thesis
    using assms by (auto simp add: a b Let_def)
qed

lemma dec4:
  assumes "k \<le> 4" "m1 < 64" "m2 < 64" "m3 < 64" "k = 0 \<longrightarrow> 16 \<le> m1" "k = 4 \<longrightarrow> m1 < 16"
  shows "DecodeRune (char_of (240 + k) # char_of (128 + m1) # char_of (128 + m2)
            # char_of (128 + m3) # rest) =
           (k * 262144 + m1 * 4096 + m2 * 64 + m3, 4)"
proof -
  have a: "(240 + k) mod 256 = 240 + k" "(128 + m1) mod 256 = 128 + m1"
    "(128 + m2) mod 256 = 128 + m2" "(128 + m3) mod 256 = 128 + m3"
    using assms by simp_all
  have b: "(240 + k) mod 8 = k" "(128 + m1) mod 64 = m1" "(128 + m2) mod 64 = m2"
    "(128 + m3) mod 64 = m3"
    using assms mod_shift [of k 8 30] mod_shift [of m1 64 2] mod_shift [of m2 64 2]
      mod_shift [of m3 64 2]
    by simp_all
  show ?thesis
    using assms by (auto simp add: a b Let_def)
qed

lemma digits2:
  assumes "128 \<le> r" "r < (2048::nat)"
  obtains k m where "r div 64 = k" "r mod 64 = m" "2 \<le> k" "k < 32" "m < 64" "k * 64 + m = r"
proof -
  define m where "m = r mod 64"
  define k where "k = r div 64"
  have e: "k * 64 + m = r" and m: "m < 64" by (simp_all add: k_def m_def)
  from e m assms have b: "2 \<le> k" "k < 32" by linarith+
  have d: "r div 64 = k" "r mod 64 = m" by (simp_all add: k_def m_def)
  show ?thesis
    by (rule that [OF d b m e])
qed

lemma digits3:
  assumes "2048 \<le> r" "r < (65536::nat)" "\<not> (55296 \<le> r \<and> r \<le> 57343)"
  obtains k m1 m2 where "r div 4096 = k" "(r div 64) mod 64 = m1" "r mod 64 = m2"
    "k < 16" "m1 < 64" "m2 < 64" "k = 0 \<longrightarrow> 32 \<le> m1" "k = 13 \<longrightarrow> m1 < 32"
    "k * 4096 + m1 * 64 + m2 = r"
proof -
  define m2 where "m2 = r mod 64"
  define a where "a = r div 64"
  define m1 where "m1 = a mod 64"
  define k where "k = a div 64"
  have r: "a * 64 + m2 = r" and m2: "m2 < 64" by (simp_all add: a_def m2_def)
  have a: "k * 64 + m1 = a" and m1: "m1 < 64" by (simp_all add: k_def m1_def)
  have d: "r div 4096 = k" "(r div 64) mod 64 = m1" "r mod 64 = m2"
    unfolding k_def m1_def a_def m2_def by (simp_all flip: div_mult2_eq)
  from r a have e: "k * 4096 + m1 * 64 + m2 = r" by linarith
  from e m1 m2 assms have b: "k < 16" by linarith
  from e m1 m2 assms have c: "k = 0 \<longrightarrow> 32 \<le> m1" "k = 13 \<longrightarrow> m1 < 32" by linarith+
  show ?thesis
    by (rule that [OF d b m1 m2 c e])
qed

lemma digits4:
  assumes "65536 \<le> r" "r \<le> (1114111::nat)"
  obtains k m1 m2 m3 where "r div 262144 = k" "(r div 4096) mod 64 = m1"
    "(r div 64) mod 64 = m2" "r mod 64 = m3"
    "k \<le> 4" "m1 < 64" "m2 < 64" "m3 < 64" "k = 0 \<longrightarrow> 16 \<le> m1" "k = 4 \<longrightarrow> m1 < 16"
    "k * 262144 + m1 * 4096 + m2 * 64 + m3 = r"
proof -
  define m3 where "m3 = r mod 64"
  define a where "a = r div 64"
  define m2 where "m2 = a mod 64"
  define b where "b = a div 64"
  define m1 where "m1 = b mod 64"
  define k where "k = b div 64"
  have r: "a * 64 + m3 = r" and m3: "m3 < 64" by (simp_all add: a_def m3_def)
  have a: "b * 64 + m2 = a" and m2: "m2 < 64" by (simp_all add: b_def m2_def)
  have b: "k * 64 + m1 = b" and m1: "m1 < 64" by (simp_all add: k_def m1_def)
  have d: "r div 262144 = k" "(r div 4096) mod 64 = m1" "(r div 64) mod 64 = m2"
    "r mod 64 = m3"
    unfolding k_def m1_def b_def m2_def a_def m3_def by (simp_all flip: div_mult2_eq)
  from r a b have e: "k * 262144 + m1 * 4096 + m2 * 64 + m3 = r" by linarith
  from e m1 m2 m3 assms have c: "k \<le> 4" by linarith
  from e m1 m2 m3 assms have f: "k = 0 \<longrightarrow> 16 \<le> m1" "k = 4 \<longrightarrow> m1 < 16" by linarith+
  show ?thesis
    by (rule that [OF d c m1 m2 m3 f e])
qed

lemma runes_w_one:
  "DecodeRune (c # cs) = (r, w) \<Longrightarrow>
     runes_w (c # cs) = (r, take w (c # cs)) # runes_w (drop (w - 1) cs)"
  by simp

lemma runes_w_encode:
  "runes_w (EncodeRune r @ rest) = (norm_rune r, EncodeRune r) # runes_w rest"
proof -
  consider (one) "r \<le> 127" | (two) "128 \<le> r" "r < 2048"
    | (three) "2048 \<le> r" "r < 65536" "\<not> (55296 \<le> r \<and> r \<le> 57343)"
    | (bad) "(55296 \<le> r \<and> r \<le> 57343) \<or> 1114111 < r"
    | (four) "65536 \<le> r" "r \<le> 1114111"
    by linarith
  then show ?thesis
  proof cases
    case one
    then have e: "EncodeRune r = [char_of r]" by (simp add: EncodeRune_def)
    from one have "DecodeRune (char_of r # rest) = (r, 1)" by (intro dec1) simp
    from runes_w_one [OF this] one show ?thesis
      by (simp add: e norm_rune_def valid_rune_def)
  next
    case two
    from digits2 [OF two] obtain k m where d: "r div 64 = k" "r mod 64 = m" "2 \<le> k" "k < 32"
      "m < 64" "k * 64 + m = r" by blast
    from two have e: "EncodeRune r = [char_of (192 + k), char_of (128 + m)]"
      by (simp add: EncodeRune_def d)
    from runes_w_one [OF dec2 [OF d(3,4,5), of rest]] two d(6) show ?thesis
      by (simp add: e norm_rune_def valid_rune_def)
  next
    case three
    from digits3 [OF three] obtain k m1 m2 where d: "r div 4096 = k" "(r div 64) mod 64 = m1"
      "r mod 64 = m2" "k < 16" "m1 < 64" "m2 < 64" "k = 0 \<longrightarrow> 32 \<le> m1" "k = 13 \<longrightarrow> m1 < 32"
      "k * 4096 + m1 * 64 + m2 = r" by blast
    from three d(4,5,6) have e:
      "EncodeRune r = [char_of (224 + k), char_of (128 + m1), char_of (128 + m2)]"
      by (auto simp add: EncodeRune_def d(1,2,3) Let_def)
    from runes_w_one [OF dec3 [OF d(4,5,6,7,8), of rest]] three d(9) show ?thesis
      by (simp add: e norm_rune_def valid_rune_def)
  next
    case bad
    then have e: "EncodeRune r =
        [char_of (224 + 15 :: nat), char_of (128 + 63 :: nat), char_of (128 + 61 :: nat)]"
      by (auto simp add: EncodeRune_def RuneError_def Let_def)
    have "DecodeRune (char_of (224 + 15 :: nat) # char_of (128 + 63 :: nat)
          # char_of (128 + 61 :: nat) # rest) = (15 * 4096 + 63 * 64 + 61, 3)"
      by (rule dec3) simp_all
    from runes_w_one [OF this] bad show ?thesis
      by (auto simp add: e norm_rune_def valid_rune_def RuneError_def)
  next
    case four
    from digits4 [OF four] obtain k m1 m2 m3 where d: "r div 262144 = k"
      "(r div 4096) mod 64 = m1" "(r div 64) mod 64 = m2" "r mod 64 = m3"
      "k \<le> 4" "m1 < 64" "m2 < 64" "m3 < 64" "k = 0 \<longrightarrow> 16 \<le> m1" "k = 4 \<longrightarrow> m1 < 16"
      "k * 262144 + m1 * 4096 + m2 * 64 + m3 = r" by blast
    from four d(5,6,7,8) have e: "EncodeRune r =
        [char_of (240 + k), char_of (128 + m1), char_of (128 + m2), char_of (128 + m3)]"
      by (auto simp add: EncodeRune_def d(1,2,3,4) Let_def)
    from runes_w_one [OF dec4 [OF d(5,6,7,8,9,10), of rest]] four d(11) show ?thesis
      by (simp add: e norm_rune_def valid_rune_def)
  qed
qed

lemma runes_string_of_runes:
  "runes (string_of_runes rs @ rest) = map norm_rune rs @ runes rest"
  by (induction rs) (simp_all add: string_of_runes_def runes_def runes_w_encode)


lemma valid_rune_small: "r < 55296 \<Longrightarrow> valid_rune r"
  by (simp add: valid_rune_def)

lemma valid_RuneError: "valid_rune RuneError"
  by (simp add: valid_rune_def RuneError_def)

lemma valid2: "valid_rune ((s0 mod 32) * 64 + s1 mod 64)"
proof -
  have "s0 mod 32 < 32" "s1 mod 64 < 64" by simp_all
  then have "(s0 mod 32) * 64 + s1 mod 64 < 55296" by linarith
  then show ?thesis by (rule valid_rune_small)
qed

lemma valid3:
  assumes "224 \<le> s0" "s0 < 240" "128 \<le> s1" "s1 \<le> 191" "s0 = 237 \<longrightarrow> s1 \<le> 159"
  shows "valid_rune ((s0 mod 16) * 4096 + (s1 mod 64) * 64 + s2 mod 64)"
proof -
  from assms(1) obtain k where k: "s0 = 224 + k" by (auto simp: le_iff_add)
  from assms(3) obtain t where t: "s1 = 128 + t" by (auto simp: le_iff_add)
  from k assms(2) have kb: "k < 16" by simp
  from t assms(4) have tb: "t < 64" by simp
  have m: "s0 mod 16 = k" "s1 mod 64 = t"
    using mod_shift [of k 16 14] mod_shift [of t 64 2] kb tb by (simp_all add: k t)
  have u: "s2 mod 64 < 64" by simp
  consider "k \<le> 12" | "k = 13" | "14 \<le> k" by linarith
  then show ?thesis
  proof cases
    case 1
    with tb u show ?thesis unfolding m valid_rune_def by linarith
  next
    case 2
    with assms(5) k t have "t \<le> 31" by simp
    with 2 u show ?thesis unfolding m valid_rune_def by linarith
  next
    case 3
    with tb u kb show ?thesis unfolding m valid_rune_def by linarith
  qed
qed

lemma valid_rune_big: "57343 < r \<Longrightarrow> r \<le> 1114111 \<Longrightarrow> valid_rune r"
  by (simp add: valid_rune_def)

lemma valid4:
  assumes "240 \<le> s0" "s0 \<le> 244" "128 \<le> s1" "s1 \<le> 191" "s0 = 240 \<longrightarrow> 144 \<le> s1"
    "s0 = 244 \<longrightarrow> s1 \<le> 143"
  shows "valid_rune ((s0 mod 8) * 262144 + (s1 mod 64) * 4096 + (s2 mod 64) * 64 + s3 mod 64)"
proof -
  from assms(1) obtain k where k: "s0 = 240 + k" by (auto simp: le_iff_add)
  from assms(3) obtain t where t: "s1 = 128 + t" by (auto simp: le_iff_add)
  from k assms(2) have kb: "k \<le> 4" by simp
  from t assms(4) have tb: "t < 64" by simp
  have m: "s0 mod 8 = k" "s1 mod 64 = t"
    using mod_shift [of k 8 30] mod_shift [of t 64 2] kb tb by (simp_all add: k t)
  have u: "s2 mod 64 < 64" "s3 mod 64 < 64" by simp_all
  from assms(5) k t have lo: "k = 0 \<longrightarrow> 16 \<le> t" by simp
  from assms(6) k t have hi: "k = 4 \<longrightarrow> t \<le> 15" by simp
  have "57343 < k * 262144 + t * 4096 + (s2 mod 64) * 64 + s3 mod 64"
    using lo by (cases "k = 0") simp_all
  moreover have "k * 262144 + t * 4096 + (s2 mod 64) * 64 + s3 mod 64 \<le> 1114111"
  proof (cases "k = 4")
    case True
    with hi u show ?thesis by simp
  next
    case False
    with kb have "k \<le> 3" by simp
    with tb u show ?thesis by linarith
  qed
  ultimately show ?thesis
    unfolding m by (rule valid_rune_big)
qed

lemma DecodeRune_valid: "valid_rune (fst (DecodeRune s))"
proof (cases s)
  case Nil
  then show ?thesis by (simp add: valid_RuneError)
next
  case (Cons c0 cs)
  define s0 :: nat where "s0 = of_char c0"
  consider (a) "s0 < 194 \<or> 244 < s0" | (c) "194 \<le> s0" "s0 < 224"
    | (d) "224 \<le> s0" "s0 < 240" | (e) "240 \<le> s0" "s0 \<le> 244"
    by linarith
  then show ?thesis
  proof cases
    case a
    then show ?thesis
      unfolding Cons DecodeRune.simps Let_def s0_def [symmetric]
      by (auto simp: valid_RuneError valid_rune_small)
  next
    case c
    then show ?thesis
      unfolding Cons DecodeRune.simps Let_def s0_def [symmetric]
      by (simp add: valid_RuneError valid2)
  next
    case d
    have v: "\<And>s1 s2. 128 \<le> s1 \<Longrightarrow> s1 \<le> 191 \<Longrightarrow> (s0 = 237 \<longrightarrow> s1 \<le> 159) \<Longrightarrow>
        valid_rune ((s0 mod 16) * 4096 + (s1 mod 64) * 64 + s2 mod 64)"
      using d by (intro valid3) simp_all
    have v0: "valid_rune ((s1 mod 64) * 64 + s2 mod 64)" for s1 s2 :: nat
    proof -
      have "s1 mod 64 < 64" "s2 mod 64 < 64" by simp_all
      then have "(s1 mod 64) * 64 + s2 mod 64 < 55296" by linarith
      then show ?thesis by (rule valid_rune_small)
    qed
    have v1: "\<And>s1 s2. 128 \<le> s1 \<Longrightarrow> s1 \<le> 159 \<Longrightarrow>
        valid_rune (53248 + (s1 mod 64) * 64 + s2 mod 64)"
      using valid3 [of 237] by simp
    from d show ?thesis
      unfolding Cons DecodeRune.simps Let_def s0_def [symmetric]
      by (simp add: valid_RuneError v v0 v1)
  next
    case e
    have v: "\<And>s1 s2 s3. 128 \<le> s1 \<Longrightarrow> s1 \<le> 191 \<Longrightarrow> (s0 = 240 \<longrightarrow> 144 \<le> s1) \<Longrightarrow>
        (s0 = 244 \<longrightarrow> s1 \<le> 143) \<Longrightarrow>
        valid_rune ((s0 mod 8) * 262144 + (s1 mod 64) * 4096 + (s2 mod 64) * 64 + s3 mod 64)"
      using e by (intro valid4) simp_all
    have v0: "\<And>s1 s2 s3. 144 \<le> s1 \<Longrightarrow> s1 \<le> 191 \<Longrightarrow>
        valid_rune ((s1 mod 64) * 4096 + (s2 mod 64) * 64 + s3 mod 64)"
      using valid4 [of 240] by simp
    have v1: "\<And>s1 s2 s3. 128 \<le> s1 \<Longrightarrow> s1 \<le> 143 \<Longrightarrow>
        valid_rune (1048576 + (s1 mod 64) * 4096 + (s2 mod 64) * 64 + s3 mod 64)"
      using valid4 [of 244] by simp
    from e show ?thesis
      unfolding Cons DecodeRune.simps Let_def s0_def [symmetric]
      by (simp add: valid_RuneError v v0 v1)
  qed
qed

lemma runes_valid: "r \<in> set (runes s) \<Longrightarrow> valid_rune r"
proof (induction s arbitrary: r rule: runes_w.induct)
  case 1
  then show ?case by (simp add: runes_def)
next
  case (2 c cs)
  obtain x w where d: "DecodeRune (c # cs) = (x, w)" by (cases "DecodeRune (c # cs)")
  from DecodeRune_valid [of "c # cs"] d have "valid_rune x" by simp
  with 2 d show ?case
    by (auto simp: runes_def)
qed

lemma map_norm_runes: "map norm_rune (take n (runes s)) = take n (runes s)"
proof -
  have "\<forall>r\<in>set (take n (runes s)). norm_rune r = r"
    using runes_valid [of _ s] by (auto simp: norm_rune_def dest: in_set_takeD)
  then show ?thesis by (simp add: map_idI)
qed

lemma runes_ellipsis: "runes ellipsis = [0x2026]"
  by (simp add: runes_def ellipsis_def Let_def)

section \<open>Claims about the excerpt and the title\<close>

text \<open>
  C7. The excerpt has at most \<open>n\<close> code points more than the ellipsis has (one); a
  text of at most \<open>n\<close> code points is returned as it is, however many bytes it has;
  a longer text is cut after its first \<open>n\<close> code points, and the ellipsis follows.
\<close>

theorem makeExcerpt_bound:
  "length (runes (makeExcerpt md n)) \<le> n + length (runes ellipsis)
   \<and> (length (runes (excerpt_text md)) \<le> n \<longrightarrow> makeExcerpt md n = excerpt_text md)
   \<and> (n < length (runes (excerpt_text md)) \<longrightarrow>
        runes (makeExcerpt md n) = take n (runes (excerpt_text md)) @ runes ellipsis)"
proof -
  have t: "n < length (runes (excerpt_text md)) \<Longrightarrow>
      runes (makeExcerpt md n) = take n (runes (excerpt_text md)) @ runes ellipsis"
    by (simp add: makeExcerpt_def Let_def runes_string_of_runes map_norm_runes)
  show ?thesis
  proof (cases "n < length (runes (excerpt_text md))")
    case True
    with t show ?thesis by (simp add: runes_ellipsis)
  next
    case False
    then show ?thesis by (simp add: makeExcerpt_def Let_def)
  qed
qed


theorem makeExcerpt_bound_witness:
  "makeExcerpt [CHR 0xC3, CHR 0xA9, CHR 0xC3, CHR 0xA9] 3 = [CHR 0xC3, CHR 0xA9, CHR 0xC3, CHR 0xA9]
   \<and> length [CHR 0xC3, CHR 0xA9, CHR 0xC3, CHR 0xA9] = 4
   \<and> runes (makeExcerpt ''abcdef'' 3) = [97, 98, 99, 0x2026]"
proof -
  have a: "excerpt_text [CHR 0xC3, CHR 0xA9, CHR 0xC3, CHR 0xA9] =
      [CHR 0xC3, CHR 0xA9, CHR 0xC3, CHR 0xA9]"
    by (simp add: text_eval)
  have b: "runes [CHR 0xC3, CHR 0xA9, CHR 0xC3, CHR 0xA9] = [233, 233]"
    by (simp add: text_eval)
  have c: "excerpt_text ''abcdef'' = ''abcdef''"
    by (simp add: text_eval)
  have d: "runes ''abcdef'' = [97, 98, 99, 100, 101, 102]"
    by (simp add: text_eval)
  show ?thesis
    using makeExcerpt_bound [of "[CHR 0xC3, CHR 0xA9, CHR 0xC3, CHR 0xA9]" 3]
      makeExcerpt_bound [of "''abcdef''" 3]
    by (simp add: a b c d runes_ellipsis)
qed

lemma re_spaces_eol_end:
  assumes "list_all (\<lambda>c. re_space c \<and> c \<noteq> CHR 0x0A) sp" "rest = [] \<or> hd rest = CHR 0x0A"
  shows "re_spaces_eol (sp @ rest)"
proof -
  have e: "dropWhile (\<lambda>c. re_space c \<and> c \<noteq> CHR 0x0A) (sp @ rest) =
      dropWhile (\<lambda>c. re_space c \<and> c \<noteq> CHR 0x0A) rest"
  proof (rule dropWhile_append2)
    fix x assume "x \<in> set sp"
    with assms(1) show "re_space x \<and> x \<noteq> CHR 0x0A"
      unfolding list_all_iff by blast
  qed
  show ?thesis
  proof (cases rest)
    case Nil
    then have d: "dropWhile (\<lambda>c. re_space c \<and> c \<noteq> CHR 0x0A) rest = []" by simp
    show ?thesis unfolding re_spaces_eol_def e d by simp
  next
    case (Cons a as)
    with assms(2) have "a = CHR 0x0A" by simp
    with Cons have d: "dropWhile (\<lambda>c. re_space c \<and> c \<noteq> CHR 0x0A) rest = CHR 0x0A # as"
      by simp
    show ?thesis unfolding re_spaces_eol_def e d by simp
  qed
qed

lemma re_spaces_eol_text:
  assumes "cs \<noteq> []" "\<not> re_space (last cs)" "CHR 0x0A \<notin> set cs"
  shows "\<not> re_spaces_eol (cs @ zs)"
proof -
  let ?P = "\<lambda>c. re_space c \<and> c \<noteq> CHR 0x0A"
  from assms(1,2) have ex: "\<exists>x\<in>set cs. \<not> ?P x"
    using last_in_set by blast
  then obtain x where "x \<in> set cs" "\<not> ?P x" by blast
  then have d: "dropWhile ?P (cs @ zs) = dropWhile ?P cs @ zs"
    by (rule dropWhile_append1)
  from ex have ne: "dropWhile ?P cs \<noteq> []"
    by (simp add: dropWhile_eq_Nil_conv)
  then obtain c r where c: "dropWhile ?P cs = c # r" by (cases "dropWhile ?P cs") auto
  then have "c \<in> set cs" by (metis list.set_intros(1) set_dropWhileD)
  with assms(3) have "c \<noteq> CHR 0x0A" by auto
  with d c show ?thesis by (simp add: re_spaces_eol_def)
qed

lemma reH1_group_text:
  assumes "ttl \<noteq> []" "CHR 0x0A \<notin> set ttl" "\<not> re_space (last ttl)"
    "list_all (\<lambda>c. re_space c \<and> c \<noteq> CHR 0x0A) sp" "rest = [] \<or> hd rest = CHR 0x0A"
  shows "reH1_group (ttl @ sp @ rest) = Some ttl"
  using assms(1,2,3)
proof (induction ttl)
  case Nil
  then show ?case by simp
next
  case (Cons c cs)
  show ?case
  proof (cases "cs = []")
    case True
    with Cons.prems re_spaces_eol_end [OF assms(4,5)] show ?thesis by simp
  next
    case False
    with Cons.prems have l: "\<not> re_space (last cs)" and n: "CHR 0x0A \<notin> set cs" by auto
    from re_spaces_eol_text [OF False l n] have "\<not> re_spaces_eol (cs @ sp @ rest)" .
    moreover from Cons.IH [OF False n l] have "reH1_group (cs @ sp @ rest) = Some cs" .
    ultimately show ?thesis using Cons.prems by auto
  qed
qed

lemma re_space_hash: "\<not> re_space (CHR ''#'')" and re_space_nl: "re_space (CHR 0x0A)"
  by (simp_all add: re_space_def)

lemma reH1_here_heading:
  assumes "list_all re_space ws" "ws1 \<noteq> []" "list_all re_space ws1"
    "ttl \<noteq> []" "CHR 0x0A \<notin> set ttl" "\<not> re_space (hd ttl)" "\<not> re_space (last ttl)"
    "list_all (\<lambda>c. re_space c \<and> c \<noteq> CHR 0x0A) sp" "rest = [] \<or> hd rest = CHR 0x0A"
  shows "reH1_here (ws @ ''#'' @ ws1 @ ttl @ sp @ rest) = Some ttl"
proof -
  have "dropWhile re_space (ws @ ''#'' @ ws1 @ ttl @ sp @ rest) =
      dropWhile re_space (''#'' @ ws1 @ ttl @ sp @ rest)"
  proof (rule dropWhile_append2)
    fix x assume "x \<in> set ws"
    with assms(1) show "re_space x" unfolding list_all_iff by blast
  qed
  then have a: "dropWhile re_space (ws @ ''#'' @ ws1 @ ttl @ sp @ rest) =
      CHR ''#'' # ws1 @ ttl @ sp @ rest"
    by (simp add: re_space_hash)
  from assms(4) obtain t ts where t: "ttl = t # ts" by (cases ttl) auto
  with assms(6) have "\<not> re_space t" by simp
  then have "takeWhile re_space (ttl @ sp @ rest) = []"
    by (simp add: t)
  moreover have "takeWhile re_space (ws1 @ ttl @ sp @ rest) =
      ws1 @ takeWhile re_space (ttl @ sp @ rest)"
  proof (rule takeWhile_append2)
    fix x assume "x \<in> set ws1"
    with assms(3) show "re_space x" unfolding list_all_iff by blast
  qed
  ultimately have b: "takeWhile re_space (ws1 @ ttl @ sp @ rest) = ws1"
    by simp
  from assms(2) obtain j where j: "length ws1 = Suc j" by (cases ws1) auto
  have "reH1_group (drop (Suc j) (ws1 @ ttl @ sp @ rest)) = Some ttl"
    using reH1_group_text [OF assms(4,5,7,8,9)] j [symmetric] by simp
  then have "reH1_spaces (length ws1) (ws1 @ ttl @ sp @ rest) = Some ttl"
    by (simp add: j)
  with a b show ?thesis by (simp add: reH1_here_def)
qed

lemma reH1_find_here:
  assumes "reH1_here s = Some g"
  shows "reH1_find True s = Some g"
proof (cases s)
  case Nil
  then have "reH1_here s = None" by (simp add: reH1_here_def)
  with assms show ?thesis by simp
next
  case (Cons c cs)
  with assms show ?thesis by simp
qed

lemma reH1_find_skip:
  "CHR 0x0A \<notin> set l \<Longrightarrow> reH1_find False (l @ CHR 0x0A # rest) = reH1_find True rest"
proof (induction l)
  case Nil
  then show ?case by simp
next
  case (Cons a l)
  from Cons.prems have a: "a \<noteq> CHR 0x0A" and l: "CHR 0x0A \<notin> set l" by auto
  from a have "reH1_find False ((a # l) @ CHR 0x0A # rest) = reH1_find False (l @ CHR 0x0A # rest)"
    by simp
  with Cons.IH [OF l] show ?case by (simp only:)
qed

lemma reH1_find_noline: "CHR 0x0A \<notin> set l \<Longrightarrow> reH1_find False l = None"
proof (induction l)
  case Nil
  then show ?case by simp
next
  case (Cons a l)
  from Cons.prems have a: "a \<noteq> CHR 0x0A" and l: "CHR 0x0A \<notin> set l" by auto
  from a have "reH1_find False (a # l) = reH1_find False l"
    by simp
  with Cons.IH [OF l] show ?case by (simp only:)
qed

lemma reH1_here_blank:
  assumes "list_all re_space l"
  shows "reH1_here (l @ CHR 0x0A # rest) = reH1_here rest"
proof -
  from assms have "dropWhile re_space (l @ CHR 0x0A # rest) = dropWhile re_space (CHR 0x0A # rest)"
    by (intro dropWhile_append2) (simp add: list_all_iff)
  then have "dropWhile re_space (l @ CHR 0x0A # rest) = dropWhile re_space rest"
    by (simp add: re_space_nl)
  then show ?thesis
    unfolding reH1_here_def by (rule arg_cong)
qed

lemma reH1_here_plain:
  assumes "not_h1_line l" "\<not> list_all re_space l"
  shows "reH1_here (l @ zs) = None"
proof -
  from assms(2) have ex: "\<exists>x\<in>set l. \<not> re_space x" by (simp add: list_all_iff)
  then obtain x where "x \<in> set l" "\<not> re_space x" by blast
  then have d: "dropWhile re_space (l @ zs) = dropWhile re_space l @ zs"
    by (rule dropWhile_append1)
  from ex have "dropWhile re_space l \<noteq> []" by (simp add: dropWhile_eq_Nil_conv)
  then obtain c r where c: "dropWhile re_space l = c # r"
    by (cases "dropWhile re_space l") auto
  with assms(1) have h: "c \<noteq> CHR ''#'' \<or> (r \<noteq> [] \<and> \<not> re_space (hd r))"
    by (simp add: not_h1_line_def)
  show ?thesis
  proof (cases "c = CHR ''#''")
    case False
    with d c show ?thesis by (simp add: reH1_here_def)
  next
    case True
    with h obtain x xs where r: "r = x # xs" "\<not> re_space x" by (cases r) auto
    with d c True show ?thesis by (simp add: reH1_here_def)
  qed
qed

lemma reH1_find_line:
  assumes "not_h1_line l"
  shows "reH1_find True (l @ CHR 0x0A # rest) = reH1_find True rest"
proof -
  from assms have n: "CHR 0x0A \<notin> set l" by (simp add: not_h1_line_def)
  have u: "reH1_find True (l @ CHR 0x0A # rest) =
      (case reH1_here (l @ CHR 0x0A # rest) of
         Some g \<Rightarrow> Some g
       | None \<Rightarrow> reH1_find True rest)"
  proof (cases l)
    case Nil
    then show ?thesis by (simp split: option.splits)
  next
    case (Cons c cs)
    with n have "c \<noteq> CHR 0x0A" "CHR 0x0A \<notin> set cs" by auto
    with reH1_find_skip [of cs rest] Cons show ?thesis by (simp split: option.splits)
  qed
  have "reH1_here (l @ CHR 0x0A # rest) = None \<or>
      (\<exists>g. reH1_here (l @ CHR 0x0A # rest) = Some g \<and> reH1_find True rest = Some g)"
  proof (cases "list_all re_space l")
    case True
    note h = reH1_here_blank [OF True, of rest]
    show ?thesis
    proof (cases "reH1_here rest")
      case None
      with h show ?thesis by simp
    next
      case (Some g)
      with h reH1_find_here [of rest g] show ?thesis by simp
    qed
  next
    case False
    from reH1_here_plain [OF assms False] show ?thesis by simp
  qed
  then show ?thesis
    unfolding u by (auto split: option.splits)
qed

lemma reH1_find_lines:
  "list_all not_h1_line ls \<Longrightarrow> reH1_find True (unlines ls @ s) = reH1_find True s"
proof (induction ls)
  case Nil
  then show ?case by (simp add: unlines_def)
next
  case (Cons l ls)
  then have ih: "reH1_find True (unlines ls @ s) = reH1_find True s" and l: "not_h1_line l"
    by simp_all
  have "unlines (l # ls) @ s = l @ CHR 0x0A # (unlines ls @ s)"
    by (simp add: unlines_def)
  then have "reH1_find True (unlines (l # ls) @ s) = reH1_find True (unlines ls @ s)"
    using reH1_find_line [OF l] by (simp only:)
  with ih show ?case by (simp only:)
qed

lemma reH1_find_last:
  assumes "not_h1_line l"
  shows "reH1_find True l = None"
proof (cases l)
  case Nil
  then show ?thesis by simp
next
  case (Cons c cs)
  from assms have n: "CHR 0x0A \<notin> set l" by (simp add: not_h1_line_def)
  have h: "reH1_here l = None"
  proof (cases "list_all re_space l")
    case True
    then have e: "dropWhile re_space l = []" by (simp add: list_all_iff)
    show ?thesis unfolding reH1_here_def e by simp
  next
    case False
    from reH1_here_plain [OF assms False, of "[]"] show ?thesis by simp
  qed
  from n Cons have "reH1_find False cs = None" by (intro reH1_find_noline) simp
  moreover from n Cons have "c \<noteq> CHR 0x0A" by auto
  ultimately show ?thesis using h Cons by simp
qed

lemma hspace_re_space: "list_all hspace ws \<Longrightarrow> list_all re_space ws"
  by (simp add: list_all_iff hspace_def)

lemma reH1_group_set: "reH1_group s = Some g \<Longrightarrow> set g \<subseteq> set s"
proof (induction s arbitrary: g)
  case Nil
  then show ?case by simp
next
  case (Cons c cs)
  show ?case
  proof (cases "c = CHR 0x0A")
    case True
    with Cons.prems show ?thesis by simp
  next
    case False
    show ?thesis
    proof (cases "re_spaces_eol cs")
      case True
      with False Cons.prems show ?thesis by auto
    next
      case e: False
      with False Cons.prems obtain g' where g': "reH1_group cs = Some g'" "g = c # g'"
        by auto
      from Cons.IH [OF g'(1)] g'(2) show ?thesis by auto
    qed
  qed
qed

lemma reH1_spaces_set: "reH1_spaces j s = Some g \<Longrightarrow> set g \<subseteq> set s"
proof (induction j)
  case 0
  then show ?case by simp
next
  case (Suc j)
  show ?case
  proof (cases "reH1_group (drop (Suc j) s)")
    case None
    with Suc show ?thesis by simp
  next
    case (Some g')
    with Suc.prems have "g = g'" by simp
    with Some reH1_group_set [of "drop (Suc j) s" g'] have "set g \<subseteq> set (drop (Suc j) s)"
      by simp
    then show ?thesis using set_drop_subset [of "Suc j" s] by blast
  qed
qed

lemma reH1_here_lone:
  assumes "list_all re_space u" "list_all re_space sps" "reH1_here (u @ CHR ''#'' # sps) = Some g"
  shows "list_all re_space g"
proof -
  have "dropWhile re_space (u @ CHR ''#'' # sps) = dropWhile re_space (CHR ''#'' # sps)"
    using assms(1) by (intro dropWhile_append2) (simp add: list_all_iff)
  then have d: "dropWhile re_space (u @ CHR ''#'' # sps) = CHR ''#'' # sps"
    by (simp add: re_space_hash)
  from assms(3) have "reH1_spaces (length (takeWhile re_space sps)) sps = Some g"
    unfolding reH1_here_def d by simp
  from reH1_spaces_set [OF this] assms(2) show ?thesis
    by (auto simp: list_all_iff)
qed

lemma reH1_find_blank: "list_all re_space sps \<Longrightarrow> reH1_find bol sps = None"
proof (induction sps arbitrary: bol)
  case Nil
  then show ?case by simp
next
  case (Cons c cs)
  then have "dropWhile re_space (c # cs) = []" by (simp add: list_all_iff)
  then have h: "reH1_here (c # cs) = None" unfolding reH1_here_def by simp
  from Cons have "reH1_find (c = CHR 0x0A) cs = None" by simp
  with h show ?case by simp
qed

lemma reH1_find_lone:
  assumes "list_all re_space u" "list_all re_space sps"
  shows "reH1_find bol (u @ CHR ''#'' # sps) = None \<or>
         (\<exists>g. reH1_find bol (u @ CHR ''#'' # sps) = Some g \<and> list_all re_space g)"
  using assms(1)
proof (induction u arbitrary: bol)
  case Nil
  have r: "reH1_find (CHR ''#'' = CHR 0x0A) sps = None"
    using assms(2) by (rule reH1_find_blank)
  have e: "reH1_find bol ([] @ CHR ''#'' # sps) =
      (case (if bol then reH1_here ([] @ CHR ''#'' # sps) else None) of
         Some g \<Rightarrow> Some g
       | None \<Rightarrow> reH1_find (CHR ''#'' = CHR 0x0A) sps)"
    by simp
  show ?case
  proof (cases "if bol then reH1_here ([] @ CHR ''#'' # sps) else None")
    case None
    show ?thesis unfolding e None r by simp
  next
    case (Some g)
    then have "reH1_here ([] @ CHR ''#'' # sps) = Some g" by (simp split: if_splits)
    from reH1_here_lone [OF _ assms(2) this] have "list_all re_space g" by simp
    then show ?thesis unfolding e Some by simp
  qed
next
  case (Cons c u)
  then have u: "list_all re_space u" and cu: "list_all re_space (c # u)" by simp_all
  have e: "reH1_find bol ((c # u) @ CHR ''#'' # sps) =
      (case (if bol then reH1_here ((c # u) @ CHR ''#'' # sps) else None) of
         Some g \<Rightarrow> Some g
       | None \<Rightarrow> reH1_find (c = CHR 0x0A) (u @ CHR ''#'' # sps))"
    by simp
  show ?case
  proof (cases "if bol then reH1_here ((c # u) @ CHR ''#'' # sps) else None")
    case None
    from Cons.IH [OF u, of "c = CHR 0x0A"] show ?thesis unfolding e None by simp
  next
    case (Some g)
    then have "reH1_here ((c # u) @ CHR ''#'' # sps) = Some g" by (simp split: if_splits)
    from reH1_here_lone [OF cu assms(2) this] have "list_all re_space g" .
    then show ?thesis unfolding e Some by simp
  qed
qed

lemma runes_w_blank:
  "list_all re_space g \<Longrightarrow> dropWhile (\<lambda>x. IsSpace (fst x)) (runes_w g) = []"
proof (induction g)
  case Nil
  then show ?case by simp
next
  case (Cons c cs)
  then have c: "re_space c" and cs: "list_all re_space cs" by simp_all
  from c have lt: "of_char c < (128::nat)" and sp: "IsSpace (of_char c)"
    by (auto simp: re_space_def IsSpace_def)
  have r: "runes_w (c # cs) = (of_char c, [c]) # runes_w cs"
    using lt by (rule runes_w_ascii)
  have "dropWhile (\<lambda>x. IsSpace (fst x)) (runes_w (c # cs)) =
      dropWhile (\<lambda>x. IsSpace (fst x)) (runes_w cs)"
    unfolding r using sp by simp
  with Cons.IH [OF cs] show ?case by (simp only:)
qed

lemma TrimSpace_blank: "list_all re_space g \<Longrightarrow> TrimSpace g = []"
  by (simp add: TrimSpace_def runes_w_blank del: dropWhile_eq_Nil_conv)

text \<open>
  C6. The title is the trimmed text of the first line that has, after optional white
  space, exactly one \<open>#\<close>, then white space, then text; a line that begins with two or
  more \<open>#\<close> is not such a line. The title is the base name of the file without its
  extension when no line has such a marker, and when the first line that has it has no
  text and only white space follows it to the end of the document. A document where
  further text follows a marker without text is left open.
\<close>

theorem title_extraction:
  "(list_all not_h1_line ls \<and> list_all hspace ws \<and> ws1 \<noteq> [] \<and> list_all hspace ws1
      \<and> ttl \<noteq> [] \<and> CHR 0x0A \<notin> set ttl \<and> \<not> re_space (hd ttl) \<and> \<not> re_space (last ttl)
      \<and> TrimSpace ttl \<noteq> [] \<and> list_all hspace sp \<and> (rest = [] \<or> hd rest = CHR 0x0A)
    \<longrightarrow> post_title p (unlines ls @ ws @ ''#'' @ ws1 @ ttl @ sp @ rest) = TrimSpace ttl)
   \<and> (list_all not_h1_line ls \<and> not_h1_line l
    \<longrightarrow> post_title p (unlines ls @ l) = TrimSuffix (path_Base p) (path_Ext p))
   \<and> (list_all not_h1_line ls \<and> list_all hspace ws \<and> list_all re_space sps
    \<longrightarrow> post_title p (unlines ls @ ws @ ''#'' @ sps) = TrimSuffix (path_Base p) (path_Ext p))"
proof (intro conjI impI)
  assume a: "list_all not_h1_line ls \<and> list_all hspace ws \<and> ws1 \<noteq> [] \<and> list_all hspace ws1
      \<and> ttl \<noteq> [] \<and> CHR 0x0A \<notin> set ttl \<and> \<not> re_space (hd ttl) \<and> \<not> re_space (last ttl)
      \<and> TrimSpace ttl \<noteq> [] \<and> list_all hspace sp \<and> (rest = [] \<or> hd rest = CHR 0x0A)"
  then have sp: "list_all (\<lambda>c. re_space c \<and> c \<noteq> CHR 0x0A) sp"
    by (simp add: list_all_iff hspace_def)
  from a have "reH1_here (ws @ ''#'' @ ws1 @ ttl @ sp @ rest) = Some ttl"
    using sp by (intro reH1_here_heading) (simp_all add: hspace_re_space)
  then have "reH1_find True (ws @ ''#'' @ ws1 @ ttl @ sp @ rest) = Some ttl"
    by (rule reH1_find_here)
  moreover from a have "reH1_find True (unlines ls @ ws @ ''#'' @ ws1 @ ttl @ sp @ rest) =
      reH1_find True (ws @ ''#'' @ ws1 @ ttl @ sp @ rest)"
    by (intro reH1_find_lines) simp
  ultimately have ex: "extractTitle (unlines ls @ ws @ ''#'' @ ws1 @ ttl @ sp @ rest) =
      TrimSpace ttl"
    by (simp only: extractTitle_def option.case)
  from a have ne: "TrimSpace ttl \<noteq> []" by simp
  from ex ne show "post_title p (unlines ls @ ws @ ''#'' @ ws1 @ ttl @ sp @ rest) = TrimSpace ttl"
    by (simp add: post_title_def Let_def)
next
  assume a: "list_all not_h1_line ls \<and> not_h1_line l"
  then have "reH1_find True (unlines ls @ l) = reH1_find True l"
    by (intro reH1_find_lines) simp
  with a reH1_find_last [of l] have "extractTitle (unlines ls @ l) = []"
    by (simp add: extractTitle_def)
  then show "post_title p (unlines ls @ l) = TrimSuffix (path_Base p) (path_Ext p)"
    by (simp add: post_title_def Let_def)
next
  assume a: "list_all not_h1_line ls \<and> list_all hspace ws \<and> list_all re_space sps"
  then have f: "reH1_find True (unlines ls @ ws @ ''#'' @ sps) = reH1_find True (ws @ ''#'' @ sps)"
    by (intro reH1_find_lines) simp
  from a have "list_all re_space ws" "list_all re_space sps"
    by (simp_all add: hspace_re_space)
  from reH1_find_lone [OF this, of True]
  have "extractTitle (unlines ls @ ws @ ''#'' @ sps) = []"
    unfolding extractTitle_def f by (auto simp: TrimSpace_blank)
  then show "post_title p (unlines ls @ ws @ ''#'' @ sps) = TrimSuffix (path_Base p) (path_Ext p)"
    by (simp add: post_title_def Let_def)
qed

theorem title_extraction_witness:
  "post_title ''data/x.md'' ''intro\<newline>## Sub\<newline>  #  Main Title  \<newline>more'' = ''Main Title''
   \<and> post_title ''data/x.md'' ''intro\<newline>## Sub\<newline>text'' = ''x''
   \<and> post_title ''data/x.md'' ''intro\<newline># \<newline>'' = ''x''"
proof -
  have n: "list_all not_h1_line [''intro'', ''## Sub'']" "not_h1_line ''text''"
    "list_all not_h1_line [''intro'']"
    by (simp_all add: not_h1_line_def re_space_def)
  have t: "TrimSpace ''Main Title'' = ''Main Title''"
    by (simp add: text_eval)
  have b: "TrimSuffix (path_Base ''data/x.md'') (path_Ext ''data/x.md'') = ''x''"
    by (simp add: str_eval)
  from title_extraction [of "[''intro'', ''## Sub'']" "''  ''" "''  ''" "''Main Title''" "''  ''"
      "''\<newline>more''" "''data/x.md''" "''text''" "[]"] n t
  have 1: "post_title ''data/x.md'' ''intro\<newline>## Sub\<newline>  #  Main Title  \<newline>more'' = ''Main Title''"
    and 2: "post_title ''data/x.md'' ''intro\<newline>## Sub\<newline>text'' =
          TrimSuffix (path_Base ''data/x.md'') (path_Ext ''data/x.md'')"
    by (simp_all add: unlines_def re_space_def hspace_def)
  from title_extraction [of "[''intro'']" "[]" "''  ''" "''x''" "[]" "[]" "''data/x.md''" "[]"
      "'' \<newline>''"] n(3)
  have 3: "post_title ''data/x.md'' ''intro\<newline># \<newline>'' =
          TrimSuffix (path_Base ''data/x.md'') (path_Ext ''data/x.md'')"
    by (simp add: unlines_def re_space_def hspace_def)
  from 1 2 3 b show ?thesis by (simp only:)
qed

theorem title_level_counterexample:
  "extractTitle ''## Sub\<newline># Main'' = ''Main''
   \<and> post_title ''data/x.md'' ''## Sub'' = ''x''
   \<and> post_title ''data/x.md'' ''  # Main'' = ''Main''"
  by (simp add: post_title_def text_eval str_eval)

section \<open>Claims about the disk mirror\<close>

lemma json_string_ascii: "\<forall>c\<in>set s. of_char c < (128::nat) \<Longrightarrow> json_string s = s"
proof (induction s)
  case Nil
  then show ?case by (simp add: json_string_def runes_def string_of_runes_def)
next
  case (Cons c s)
  then have "of_char c < (128::nat)" by simp
  then have "EncodeRune (of_char c) = [c]" by (simp add: EncodeRune_def)
  with Cons show ?case
    by (simp add: json_string_def runes_def string_of_runes_def runes_w_ascii)
qed

lemma slugify_ascii: "json_string (slugify s) = slugify s"
proof (rule json_string_ascii, rule ballI)
  fix c assume "c \<in> set (slugify s)"
  from slugify_charset [OF this] show "of_char c < (128::nat)"
    by (auto simp: is_lower_def is_digit_def less_eq_char_def)
qed

lemma fetch_loop_raw:
  assumes "fetch_loop prefix md fetch ps (out, raw) = Return (out', raw')"
    and "\<forall>p\<in>set out. (\<exists>s. Slug p = slugify s) \<and> (\<exists>b h. raw (Slug p) = Some b \<and> md b = Inr h)"
  shows "\<forall>p\<in>set out'. (\<exists>s. Slug p = slugify s) \<and> (\<exists>b h. raw' (Slug p) = Some b \<and> md b = Inr h)"
  using assms
proof (induction ps arbitrary: out raw)
  case Nil
  then show ?case by simp
next
  case (Cons a ps)
  show ?case
  proof (cases "fetch a")
    case Panic
    with Cons.prems(1) show ?thesis by simp
  next
    case (Return r)
    show ?thesis
    proof (cases r)
      case (Inl e)
      with Return Cons.prems(1)
      have "fetch_loop prefix md fetch ps (out, raw) = Return (out', raw')" by simp
      from Cons.IH [OF this Cons.prems(2)] show ?thesis .
    next
      case (Inr body)
      show ?thesis
      proof (cases "md body")
        case (Inl e)
        with Inr Return Cons.prems(1)
        have "fetch_loop prefix md fetch ps (out, raw) = Return (out', raw')"
          by (simp add: Let_def)
        from Cons.IH [OF this Cons.prems(2)] show ?thesis .
      next
        case h: (Inr html)
        define post where "post = \<lparr>Slug = post_slug prefix a, Title = post_title a body,
          Excerpt = makeExcerpt body 140, HTML = html, SourcePath = a\<rparr>"
        from Inr Return h Cons.prems(1) have l: "fetch_loop prefix md fetch ps
            (out @ [post], raw(post_slug prefix a \<mapsto> body)) = Return (out', raw')"
          by (simp add: Let_def post_def)
        have "\<forall>p\<in>set (out @ [post]). (\<exists>s. Slug p = slugify s) \<and>
            (\<exists>b h. (raw(post_slug prefix a \<mapsto> body)) (Slug p) = Some b \<and> md b = Inr h)"
          using Cons.prems(2) h by (auto simp: post_def post_slug_def)
        from Cons.IH [OF l this] show ?thesis .
      qed
    qed
  qed
qed

lemma fetchPosts_raw:
  assumes "fetchPosts cfg md gh = Return (ps, raw, None)"
  shows "\<forall>p\<in>set ps. (\<exists>s. Slug p = slugify s) \<and> (\<exists>b h. raw (Slug p) = Some b \<and> md b = Inr h)"
proof (cases "ghTree gh")
  case (Inl e)
  with fetchPosts_Return [OF assms] show ?thesis by simp
next
  case (Inr items)
  with fetchPosts_Return [OF assms] obtain out where
    l: "fetch_loop (content_prefix cfg) md (ghFetchFile cfg gh)
          (sort (candidates cfg items)) ([], Map.empty) = Return (out, raw)"
    and e: "ps = sort_posts out"
    by (auto split: if_splits)
  from fetch_loop_raw [OF l] have "\<forall>p\<in>set out. (\<exists>s. Slug p = slugify s) \<and>
      (\<exists>b h. raw (Slug p) = Some b \<and> md b = Inr h)" by simp
  moreover have "set ps = set out" using e by (simp add: sort_posts_def)
  ultimately show ?thesis by simp
qed

lemma body_path_inj: "body_path cfg s = body_path cfg t \<longleftrightarrow> s = t"
  by (simp add: body_path_def filepath_Join_def)

lemma write_bodies_files:
  assumes "write_bodies cfg raw ps d = (d1, None)"
  shows "files d1 (body_path cfg s) =
           (if s \<in> Slug ` {p \<in> set ps. raw (Slug p) \<noteq> None} then raw s
            else files d (body_path cfg s))
         \<and> index_json d1 = index_json d \<and> index_tmp d1 = index_tmp d \<and> os_fail d1 = os_fail d"
  using assms
proof (induction ps arbitrary: d)
  case Nil
  then show ?case by simp
next
  case (Cons p ps)
  show ?case
  proof (cases "raw (Slug p)")
    case None
    with Cons.prems have "write_bodies cfg raw ps d = (d1, None)" by simp
    from Cons.IH [OF this] None show ?thesis by auto
  next
    case (Some body)
    define d' where "d' = d\<lparr>files := (files d)(body_path cfg (Slug p) \<mapsto> body)\<rparr>"
    from Some Cons.prems have w: "write_bodies cfg raw ps d' = (d1, None)"
      by (auto simp: Let_def d'_def body_path_def split: option.splits)
    from Cons.IH [OF w] Some show ?thesis
      by (auto simp: d'_def body_path_inj)
  qed
qed

lemma savePostsToDisk_ok:
  assumes "savePostsToDisk cfg gen ps raw d = (d', None)"
  shows "index_json d' = Manifest (json_index \<lparr>GeneratedAt = gen, RepoLabel = repoLabel cfg,
             Posts = map index_entry ps\<rparr>)
         \<and> (\<forall>p\<in>set ps. raw (Slug p) \<noteq> None \<longrightarrow>
               files d' (body_path cfg (Slug p)) = raw (Slug p))"
proof -
  from assms obtain d1 where w: "write_bodies cfg raw ps d = (d1, None)"
    and e: "d' = d1\<lparr>index_tmp := Manifest (json_index \<lparr>GeneratedAt = gen,
        RepoLabel = repoLabel cfg, Posts = map index_entry ps\<rparr>)\<rparr>
        \<lparr>index_json := Manifest (json_index \<lparr>GeneratedAt = gen,
        RepoLabel = repoLabel cfg, Posts = map index_entry ps\<rparr>), index_tmp := NoFile\<rparr>"
    by (auto simp: savePostsToDisk_def Let_def split: option.splits prod.splits)
  from write_bodies_files [OF w] e show ?thesis by auto
qed

lemma load_loop_all:
  assumes "\<forall>it\<in>set its. \<exists>raw html. files d (body_path cfg (ix_slug it)) = Some raw
      \<and> md raw = Inr html"
  shows "map post_meta (load_loop cfg md d its out) =
     map post_meta out @ map (\<lambda>it. (ix_slug it, ix_title it, ix_excerpt it, ix_source_path it)) its"
  using assms
proof (induction its arbitrary: out)
  case Nil
  then show ?case by simp
next
  case (Cons it its)
  then obtain raw html where f: "files d (body_path cfg (ix_slug it)) = Some raw"
    "md raw = Inr html" by auto
  from Cons.prems have "\<forall>it\<in>set its. \<exists>raw html. files d (body_path cfg (ix_slug it)) = Some raw
      \<and> md raw = Inr html" by simp
  from Cons.IH [OF this] f show ?case
    by (simp add: body_path_def post_meta_def)
qed

text \<open>
  C9. When \<open>savePostsToDisk\<close> returns no error for a published snapshot and its raw
  bodies, \<open>loadPostsFromDisk\<close> returns no error and, in the same order, posts with the
  same slugs and with the titles, excerpts and source paths as the manifest holds them:
  \<open>encoding/json\<close> has replaced each byte that is no valid UTF-8 by U+FFFD. So the
  four fields are those of the snapshot when its titles, excerpts and source paths are
  valid UTF-8, and a title with a Latin-1 byte comes back changed.
\<close>

theorem disk_round_trip:
  assumes "fetchPosts cfg md gh = Return (ps, raw, None)"
    and "savePostsToDisk cfg gen ps raw d = (d', None)"
  shows "(let loaded = loadPostsFromDisk cfg md d'
          in snd loaded = None
             \<and> map post_meta (fst loaded) =
                 map (\<lambda>p. (Slug p, json_string (Title p), json_string (Excerpt p),
                           json_string (SourcePath p))) ps
             \<and> ((\<forall>p\<in>set ps. utf8_valid (Title p) \<and> utf8_valid (Excerpt p)
                      \<and> utf8_valid (SourcePath p)) \<longrightarrow>
                  map post_meta (fst loaded) = map post_meta ps))"
proof -
  note inv = fetchPosts_raw [OF assms(1)]
  note sv = savePostsToDisk_ok [OF assms(2)]
  define its where "its = map json_entry (map index_entry ps)"
  have slug: "\<forall>p\<in>set ps. json_string (Slug p) = Slug p"
    using inv slugify_ascii by auto
  have "\<forall>it\<in>set its. \<exists>raw html. files d' (body_path cfg (ix_slug it)) = Some raw
      \<and> md raw = Inr html"
  proof
    fix it assume "it \<in> set its"
    then obtain p where p: "p \<in> set ps" "it = json_entry (index_entry p)"
      by (auto simp: its_def)
    with slug have i: "ix_slug it = Slug p" by (simp add: json_entry_def index_entry_def)
    from inv p(1) obtain b h where b: "raw (Slug p) = Some b" "md b = Inr h" by blast
    with sv p(1) have "files d' (body_path cfg (Slug p)) = Some b" by auto
    with b i show "\<exists>raw html. files d' (body_path cfg (ix_slug it)) = Some raw \<and> md raw = Inr html"
      by auto
  qed
  from load_loop_all [OF this, of "[]"]
  have l: "map post_meta (load_loop cfg md d' its []) =
      map (\<lambda>it. (ix_slug it, ix_title it, ix_excerpt it, ix_source_path it)) its"
    by simp
  have m: "map (\<lambda>it. (ix_slug it, ix_title it, ix_excerpt it, ix_source_path it)) its =
      map (\<lambda>p. (Slug p, json_string (Title p), json_string (Excerpt p),
                           json_string (SourcePath p))) ps"
    using slug by (simp add: its_def json_entry_def index_entry_def)
  have ld: "loadPostsFromDisk cfg md d' = (load_loop cfg md d' its [], None)"
    using sv by (simp add: loadPostsFromDisk_def its_def json_index_def)
  have v: "(\<forall>p\<in>set ps. utf8_valid (Title p) \<and> utf8_valid (Excerpt p)
                      \<and> utf8_valid (SourcePath p)) \<Longrightarrow>
      map (\<lambda>p. (Slug p, json_string (Title p), json_string (Excerpt p),
                           json_string (SourcePath p))) ps = map post_meta ps"
    by (simp add: utf8_valid_def json_string_def post_meta_def)
  show ?thesis
    using ld l m v by (simp add: Let_def)
qed

lemma scenario_fields:
  "Owner scenario_cfg = ''lipcoder''" "Repo scenario_cfg = ''notes''"
  "Branch scenario_cfg = ''main''" "ContentDir scenario_cfg = ''data''"
  "DataDir scenario_cfg = ''data''"
  by (simp_all add: scenario_cfg_def)

lemmas disk_eval = savePostsToDisk_def loadPostsFromDisk_def empty_disk_def filepath_Join_def
  index_entry_def json_index_def json_entry_def json_string_def string_of_runes_def
  EncodeRune_def RuneError_def post_meta_def utf8_valid_def repoLabel_def

theorem disk_round_trip_witness:
  "map post_meta (fst (loadPostsFromDisk scenario_cfg Inr
      (fst (savePostsToDisk scenario_cfg 0 scenario_posts scenario_raw empty_disk)))) =
     [(''b'', ''Hello'', ''Hello World'', ''data/b.md'')]"
proof -
  have f: "fetchPosts scenario_cfg Inr scenario_remote =
      Return (scenario_posts, scenario_raw, None)"
    by (simp add: scenario_fetch [of Inr] scenario_posts_def scenario_raw_def)
  have "snd (savePostsToDisk scenario_cfg 0 scenario_posts scenario_raw empty_disk) = None"
    by (simp add: disk_eval scenario_fields scenario_posts_def scenario_raw_def)
  then have s: "savePostsToDisk scenario_cfg 0 scenario_posts scenario_raw empty_disk =
      (fst (savePostsToDisk scenario_cfg 0 scenario_posts scenario_raw empty_disk), None)"
    by (metis prod.collapse)
  have "utf8_valid ''Hello'' \<and> utf8_valid ''Hello World'' \<and> utf8_valid ''data/b.md''"
    by (simp add: disk_eval text_eval char_of_eq_iff)
  then have v: "\<forall>p\<in>set scenario_posts. utf8_valid (Title p) \<and> utf8_valid (Excerpt p)
      \<and> utf8_valid (SourcePath p)"
    by (simp add: scenario_posts_def)
  have m: "map post_meta scenario_posts = [(''b'', ''Hello'', ''Hello World'', ''data/b.md'')]"
    by (simp add: scenario_posts_def post_meta_def)
  from disk_round_trip [OF f s] v
  have "map post_meta (fst (loadPostsFromDisk scenario_cfg Inr
      (fst (savePostsToDisk scenario_cfg 0 scenario_posts scenario_raw empty_disk)))) =
      map post_meta scenario_posts"
    unfolding Let_def by blast
  with m show ?thesis by (simp only:)
qed

lemma latin1_sorted:
  "sort (candidates scenario_cfg [\<lparr>Path = ''data/a.md'', Type = ''blob''\<rparr>]) = [''data/a.md'']"
  by (simp add: sync_eval str_eval scenario_cfg_def)

lemma latin1_post:
  "post_slug ''data/'' ''data/a.md'' = ''a''"
  "post_title ''data/a.md'' (''# caf'' @ [CHR 0xE9]) = ''caf'' @ [CHR 0xE9]"
  "makeExcerpt (''# caf'' @ [CHR 0xE9]) 140 = ''caf'' @ [CHR 0xE9]"
  by (simp_all add: sync_eval str_eval text_eval RuneError_def)

lemma latin1_fetch:
  "fetchPosts scenario_cfg Inr latin1_remote = Return (latin1_posts, latin1_raw, None)"
  using latin1_post
  by (simp add: fetchPosts_def ghGetJSON_def ghFetchFile_def scenario_urls latin1_remote_def
      latin1_sorted scenario_prefix sort_posts_def Let_def latin1_posts_def latin1_raw_def)

theorem disk_round_trip_counterexample:
  "fetchPosts scenario_cfg Inr latin1_remote = Return (latin1_posts, latin1_raw, None)
   \<and> map Title latin1_posts = [''caf'' @ [CHR 0xE9]]
   \<and> snd (savePostsToDisk scenario_cfg 0 latin1_posts latin1_raw empty_disk) = None
   \<and> map Title (fst (loadPostsFromDisk scenario_cfg Inr
        (fst (savePostsToDisk scenario_cfg 0 latin1_posts latin1_raw empty_disk)))) =
     [''caf'' @ [CHR 0xEF, CHR 0xBF, CHR 0xBD]]"
  by (simp add: latin1_fetch latin1_posts_def latin1_raw_def disk_eval text_eval
      scenario_fields char_of_eq_iff)

end
